theory Spec2Isabelle
  imports Main
begin

section \<open>The promise library of \<^verbatim>\<open>promise.h\<close>\<close>

text \<open>
  The header is a template library: \<^verbatim>\<open>State<T...>\<close> holds the outcome of one stage,
  \<^verbatim>\<open>Deffered<T...>\<close> and \<^verbatim>\<open>Promise<T...>\<close> are handles sharing one \<^verbatim>\<open>State\<close> through a
  \<^verbatim>\<open>std::shared_ptr\<close>, and the continuations are heap objects (\<^verbatim>\<open>new Resolver\<close>,
  \<^verbatim>\<open>new Rejecter\<close>) whose closures capture the \<^verbatim>\<open>Deffered\<close> of the next stage. The
  embedding therefore uses an explicit store: states and continuation objects live at
  addresses, every operation takes the store and returns the new one.

  \<^item> A value bundle \<^verbatim>\<open>std::tuple<T...>\<close> is a list of atoms, so that stages of different
    arity and element type live in one store.
  \<^item> \<^verbatim>\<open>SException = std::shared_ptr<std::exception>\<close> is \<open>string option\<close>: \<open>None\<close> is
    \<^verbatim>\<open>nullptr\<close>, \<open>Some m\<close> an exception object whose \<^verbatim>\<open>what()\<close> is \<open>m\<close>.
  \<^item> \<^verbatim>\<open>assert\<close> is taken as enabled (no \<^verbatim>\<open>NDEBUG\<close>); a failed assertion is the result
    \<open>Inl\<close> of the operation.
  \<^item> The nesting of synchronous calls (settle, dispatch, settle the next stage, ...) is
    bounded by a fuel argument; running out of fuel is the result \<open>Inl OutOfFuel\<close>.
  \<^item> Reference counts are not modelled: a state is never reclaimed, and the only release
    of continuation objects is the \<^verbatim>\<open>delete\<close> of \<^verbatim>\<open>State::Reset\<close>.
  \<^item> The default-constructed bundle of a fresh state is the empty list; nothing below
    reads the bundle of a state that was never fulfilled.
  \<^item> A user continuation is a function from its argument to what it returns, and the
    calls of user continuations are recorded in a log that the C++ does not have.
\<close>

subsection \<open>Data\<close>

datatype status = pending | fulfilled | rejected

datatype atom = IntV int | StrV string

type_synonym tuple = "atom list"

type_synonym SException = "string option"

text \<open>
  What a moved-from object holds. Moving a scalar copies it. The standard leaves a
  moved-from \<^verbatim>\<open>std::string\<close> valid but unspecified; the usual implementations leave it
  empty, which is what is modelled, and no theorem below depends on that choice.
\<close>

fun moved_from :: "atom \<Rightarrow> atom" where
  "moved_from (IntV i) = IntV i"
| "moved_from (StrV s) = StrV []"

text \<open>
  What a user continuation of \<^verbatim>\<open>Then\<close> or \<^verbatim>\<open>Exception\<close> does: it returns the promise of
  \<^verbatim>\<open>MakeReadyPromise(v...)\<close>, of \<^verbatim>\<open>MakeException(e)\<close>, a default-constructed (pending)
  \<^verbatim>\<open>Promise\<close>, or one of its own assertions fires.
\<close>

datatype returned = Ready tuple | Excep SException | Unsettled | Aborted

text \<open>
  Ghost log of the calls of user continuations, each identified by a label:
  \<open>CallV l v\<close> is a call of the value continuation \<open>l\<close> with bundle \<open>v\<close>,
  \<open>CallE l e\<close> a call of the error continuation \<open>l\<close> with \<open>e\<close>.
\<close>

datatype event = CallV nat tuple | CallE nat SException

text \<open>
  The closures the operators build. \<open>Then_done l func d\<close> is the lambda
  \<^verbatim>\<open>[func, $](T &&... args)\<close> of \<^verbatim>\<open>Then\<close>, \<open>Then_fail d\<close> its \<^verbatim>\<open>[$](SException e)\<close>,
  \<open>Exception_fail l func d\<close> the lambda of \<^verbatim>\<open>Exception\<close>, \<open>Finally_done l func\<close> and
  \<open>Finally_fail l func\<close> the two of \<^verbatim>\<open>Finally\<close>. A terminal continuation is a
  function to \<open>bool\<close>: \<open>False\<close> when one of its assertions fires.
\<close>

datatype done_fn =
    Then_done nat "tuple \<Rightarrow> returned" nat
  | Finally_done nat "SException \<Rightarrow> bool"

datatype fail_fn =
    Then_fail nat
  | Exception_fail nat "SException \<Rightarrow> returned" nat
  | Finally_fail nat "SException \<Rightarrow> bool"

datatype Runnable = Resolver done_fn | Rejecter fail_fn

record State =
  s_st :: status
  s_done :: "nat option"
  s_fail :: "nat option"
  s_value :: tuple
  s_e :: SException

text \<open>
  The store: the \<^verbatim>\<open>State\<close> objects made by \<^verbatim>\<open>std::make_shared\<close>, the live \<^verbatim>\<open>Runnable\<close>
  objects made by \<^verbatim>\<open>new\<close> (\<open>None\<close> once deleted), the next fresh address of each, and
  the ghost log.
\<close>

record heap =
  states :: "nat \<Rightarrow> State"
  nstates :: nat
  objs :: "nat \<Rightarrow> Runnable option"
  nobjs :: nat
  trace :: "event list"

datatype failure = Assert0 | UserAssert | UseAfterDelete | OutOfFuel

subsection \<open>Store primitives\<close>

definition State_init :: State where
  "State_init = \<lparr>s_st = pending, s_done = None, s_fail = None, s_value = [], s_e = None\<rparr>"

definition heap_init :: heap where
  "heap_init = \<lparr>states = (\<lambda>_. State_init), nstates = 0, objs = (\<lambda>_. None), nobjs = 0,
     trace = []\<rparr>"

definition upd :: "nat \<Rightarrow> (State \<Rightarrow> State) \<Rightarrow> heap \<Rightarrow> heap" where
  "upd a f h = h\<lparr>states := (states h)(a := f (states h a))\<rparr>"

definition make_shared :: "heap \<Rightarrow> nat \<times> heap" where
  "make_shared h =
     (nstates h, h\<lparr>states := (states h)(nstates h := State_init), nstates := Suc (nstates h)\<rparr>)"

definition new :: "Runnable \<Rightarrow> heap \<Rightarrow> nat \<times> heap" where
  "new x h = (nobjs h, h\<lparr>objs := (objs h)(nobjs h \<mapsto> x), nobjs := Suc (nobjs h)\<rparr>)"

definition delete :: "nat option \<Rightarrow> heap \<Rightarrow> heap" where
  "delete p h = (case p of None \<Rightarrow> h | Some r \<Rightarrow> h\<lparr>objs := (objs h)(r := None)\<rparr>)"

definition log :: "event \<Rightarrow> heap \<Rightarrow> heap" where
  "log ev h = h\<lparr>trace := trace h @ [ev]\<rparr>"

subsection \<open>\<^verbatim>\<open>State\<close>: consuming reads\<close>

text \<open>
  \<^verbatim>\<open>get_value\<close> sets the status and returns an rvalue reference to \<^verbatim>\<open>_value\<close>: the
  reference is the address of the state, and the field is only moved from where the
  caller constructs an object from it. \<^verbatim>\<open>get_exception\<close> returns by value, so the
  \<^verbatim>\<open>shared_ptr\<close> is moved out and \<^verbatim>\<open>_e\<close> is left null.
\<close>

definition get_value :: "nat \<Rightarrow> heap \<Rightarrow> nat \<times> heap" where
  "get_value a h = (a, upd a (\<lambda>s. s\<lparr>s_st := pending\<rparr>) h)"

definition move_value :: "nat \<Rightarrow> heap \<Rightarrow> tuple \<times> heap" where
  "move_value ref h =
     (s_value (states h ref), upd ref (\<lambda>s. s\<lparr>s_value := map moved_from (s_value s)\<rparr>) h)"

definition get_exception :: "nat \<Rightarrow> heap \<Rightarrow> SException \<times> heap" where
  "get_exception a h = (s_e (states h a), upd a (\<lambda>s. s\<lparr>s_st := pending, s_e := None\<rparr>) h)"

definition Promise_GetStatus :: "nat \<Rightarrow> heap \<Rightarrow> status" where
  "Promise_GetStatus p h = s_st (states h p)"

definition Promise_GetValue :: "nat \<Rightarrow> heap \<Rightarrow> tuple \<times> heap" where
  "Promise_GetValue p h = (case get_value p h of (ref, h1) \<Rightarrow> move_value ref h1)"

definition Promise_GetException :: "nat \<Rightarrow> heap \<Rightarrow> SException \<times> heap" where
  "Promise_GetException p h = get_exception p h"

subsection \<open>Settling and dispatch\<close>

text \<open>
  \<^verbatim>\<open>State::SetValue\<close>, \<^verbatim>\<open>State::SetException\<close>, the virtual \<^verbatim>\<open>SetValue\<close> and
  \<^verbatim>\<open>SetException\<close> of \<^verbatim>\<open>Resolver\<close> and \<^verbatim>\<open>Rejecter\<close>, and the bodies of the closures call
  each other. \<open>user_return\<close> builds the promise a user continuation returns, with
  the factory it names. \<open>forward\<close> is the \<^verbatim>\<open>switch (r.GetStatus())\<close> both \<^verbatim>\<open>Then\<close> and
  \<^verbatim>\<open>Exception\<close> end with; \<^verbatim>\<open>$.SetValue\<close> and \<^verbatim>\<open>$.SetException\<close> there are the calls
  of \<^verbatim>\<open>State::SetValue\<close> and \<^verbatim>\<open>State::SetException\<close> on the state of \<^verbatim>\<open>$\<close>. A closure logs
  the call of its user continuation before it runs it.
\<close>

function (sequential) State_SetValue :: "nat \<Rightarrow> nat \<Rightarrow> tuple \<Rightarrow> heap \<Rightarrow> failure + heap"
  and State_SetException :: "nat \<Rightarrow> nat \<Rightarrow> SException \<Rightarrow> heap \<Rightarrow> failure + heap"
  and Runnable_SetValue :: "nat \<Rightarrow> nat \<Rightarrow> nat \<Rightarrow> heap \<Rightarrow> failure + heap"
  and Runnable_SetException :: "nat \<Rightarrow> nat \<Rightarrow> SException \<Rightarrow> heap \<Rightarrow> failure + heap"
  and done_call :: "nat \<Rightarrow> done_fn \<Rightarrow> tuple \<Rightarrow> heap \<Rightarrow> failure + heap"
  and fail_call :: "nat \<Rightarrow> fail_fn \<Rightarrow> SException \<Rightarrow> heap \<Rightarrow> failure + heap"
  and forward :: "nat \<Rightarrow> returned \<Rightarrow> nat \<Rightarrow> heap \<Rightarrow> failure + heap"
  and user_return :: "nat \<Rightarrow> returned \<Rightarrow> heap \<Rightarrow> failure + nat \<times> heap"
where
  "State_SetValue 0 a v h = Inl OutOfFuel"
| "State_SetValue (Suc n) a v h =
     (let h1 = upd a (\<lambda>s. s\<lparr>s_st := fulfilled, s_value := v\<rparr>) h in
      case s_done (states h1 a) of
        None \<Rightarrow> Inr h1
      | Some r \<Rightarrow> (case get_value a h1 of (ref, h2) \<Rightarrow> Runnable_SetValue n r ref h2))"
| "State_SetException 0 a e h = Inl OutOfFuel"
| "State_SetException (Suc n) a e h =
     (let h1 = upd a (\<lambda>s. s\<lparr>s_st := rejected, s_e := e\<rparr>) h in
      case s_fail (states h1 a) of
        None \<Rightarrow> Inr h1
      | Some r \<Rightarrow> (case get_exception a h1 of (x, h2) \<Rightarrow> Runnable_SetException n r x h2))"
| "Runnable_SetValue n r ref h =
     (case objs h r of
        None \<Rightarrow> Inl UseAfterDelete
      | Some (Resolver f) \<Rightarrow> (case move_value ref h of (v, h1) \<Rightarrow> done_call n f v h1)
      | Some (Rejecter f) \<Rightarrow> Inl Assert0)"
| "Runnable_SetException n r e h =
     (case objs h r of
        None \<Rightarrow> Inl UseAfterDelete
      | Some (Resolver f) \<Rightarrow> Inl Assert0
      | Some (Rejecter f) \<Rightarrow> fail_call n f e h)"
| "done_call n (Then_done l func d) v h = forward n (func v) d (log (CallV l v) h)"
| "done_call n (Finally_done l func) v h =
     (if func None then Inr (log (CallE l None) h) else Inl UserAssert)"
| "fail_call n (Then_fail d) e h = State_SetException n d e h"
| "fail_call n (Exception_fail l func d) e h = forward n (func e) d (log (CallE l e) h)"
| "fail_call n (Finally_fail l func) e h =
     (if func e then Inr (log (CallE l e) h) else Inl UserAssert)"
| "forward n ret d h =
     (case user_return n ret h of
        Inl x \<Rightarrow> Inl x
      | Inr (r, h1) \<Rightarrow>
          (case Promise_GetStatus r h1 of
             fulfilled \<Rightarrow> (case Promise_GetValue r h1 of (v, h2) \<Rightarrow> State_SetValue n d v h2)
           | rejected \<Rightarrow> (case Promise_GetException r h1 of (e, h2) \<Rightarrow> State_SetException n d e h2)
           | pending \<Rightarrow> Inr h1))"
| "user_return n (Ready v) h =
     (case make_shared h of (d, h1) \<Rightarrow>
        (case State_SetValue n d v h1 of Inl x \<Rightarrow> Inl x | Inr h2 \<Rightarrow> Inr (d, h2)))"
| "user_return n (Excep e) h =
     (case make_shared h of (d, h1) \<Rightarrow>
        (case State_SetException n d e h1 of Inl x \<Rightarrow> Inl x | Inr h2 \<Rightarrow> Inr (d, h2)))"
| "user_return n Unsettled h = Inr (make_shared h)"
| "user_return n Aborted h = Inl UserAssert"
  by pat_completeness auto

text \<open>
  Only the two settling functions use up fuel; the others are ranked below them in the
  order of the calls (dispatch, closure body, forwarding, building the returned promise).
\<close>

termination
  by (relation "measure
       (case_sum
         (case_sum (case_sum (\<lambda>p. 5 * fst p) (\<lambda>p. 5 * fst p))
                   (case_sum (\<lambda>p. 5 * fst p + 4) (\<lambda>p. 5 * fst p + 4)))
         (case_sum (case_sum (\<lambda>p. 5 * fst p + 3) (\<lambda>p. 5 * fst p + 3))
                   (case_sum (\<lambda>p. 5 * fst p + 2) (\<lambda>p. 5 * fst p + 1))))")
     auto

subsection \<open>\<^verbatim>\<open>State\<close>: registration and reset\<close>

text \<open>
  The registering functions take the pointer the operators pass, which comes from \<^verbatim>\<open>new\<close>
  and is never null. They store it over whatever the slot held.
\<close>

definition State_SetDone :: "nat \<Rightarrow> nat \<Rightarrow> nat \<Rightarrow> heap \<Rightarrow> failure + heap" where
  "State_SetDone n a dn h =
     (let h1 = upd a (\<lambda>s. s\<lparr>s_done := Some dn\<rparr>) h in
      if s_st (states h1 a) = fulfilled
      then (case get_value a h1 of (ref, h2) \<Rightarrow> Runnable_SetValue n dn ref h2)
      else Inr h1)"

definition State_SetFail :: "nat \<Rightarrow> nat \<Rightarrow> nat \<Rightarrow> heap \<Rightarrow> failure + heap" where
  "State_SetFail n a fl h =
     (let h1 = upd a (\<lambda>s. s\<lparr>s_fail := Some fl\<rparr>) h in
      if s_st (states h1 a) = rejected
      then (case get_exception a h1 of (x, h2) \<Rightarrow> Runnable_SetException n fl x h2)
      else Inr h1)"

definition State_SetFunc :: "nat \<Rightarrow> nat \<Rightarrow> nat \<Rightarrow> nat \<Rightarrow> heap \<Rightarrow> failure + heap" where
  "State_SetFunc n a dn fl h =
     (let h1 = upd a (\<lambda>s. s\<lparr>s_done := Some dn, s_fail := Some fl\<rparr>) h in
      case s_st (states h1 a) of
        fulfilled \<Rightarrow> (case get_value a h1 of (ref, h2) \<Rightarrow> Runnable_SetValue n dn ref h2)
      | rejected \<Rightarrow> (case get_exception a h1 of (x, h2) \<Rightarrow> Runnable_SetException n fl x h2)
      | pending \<Rightarrow> Inr h1)"

definition State_Reset :: "nat \<Rightarrow> heap \<Rightarrow> heap" where
  "State_Reset a h =
     (let h1 = delete (s_done (states h a)) h;
          h2 = delete (s_fail (states h1 a)) h1
      in upd a (\<lambda>s. s\<lparr>s_st := pending, s_done := None, s_fail := None, s_e := None\<rparr>) h2)"

text \<open>The destructor \<^verbatim>\<open>~State() { Reset(); }\<close>.\<close>

definition State_dtor :: "nat \<Rightarrow> heap \<Rightarrow> heap" where
  "State_dtor a h = State_Reset a h"

subsection \<open>\<^verbatim>\<open>Deffered\<close>\<close>

text \<open>A \<^verbatim>\<open>Deffered\<close> and a \<^verbatim>\<open>Promise\<close> are both the address of the state they share.\<close>

definition Deffered_new :: "heap \<Rightarrow> nat \<times> heap" where
  "Deffered_new h = make_shared h"

definition Deffered_GetPromise :: "nat \<Rightarrow> nat" where
  "Deffered_GetPromise d = d"

definition Deffered_SetValue :: "nat \<Rightarrow> nat \<Rightarrow> tuple \<Rightarrow> heap \<Rightarrow> failure + heap" where
  "Deffered_SetValue n d v h = State_SetValue n d v h"

definition Deffered_SetException :: "nat \<Rightarrow> nat \<Rightarrow> SException \<Rightarrow> heap \<Rightarrow> failure + heap" where
  "Deffered_SetException n d e h = State_SetException n d e h"

definition Deffered_Reset :: "nat \<Rightarrow> heap \<Rightarrow> heap" where
  "Deffered_Reset d h = State_Reset d h"

subsection \<open>\<^verbatim>\<open>Promise\<close>: the chaining operators, and the factories\<close>

text \<open>Each operator takes the label under which the calls of its continuation are logged.\<close>

definition Promise_Then ::
  "nat \<Rightarrow> nat \<Rightarrow> (tuple \<Rightarrow> returned) \<Rightarrow> nat \<Rightarrow> heap \<Rightarrow> failure + nat \<times> heap" where
  "Promise_Then n l func p h =
     (case Deffered_new h of (d, h1) \<Rightarrow>
      case new (Resolver (Then_done l func d)) h1 of (dn, h2) \<Rightarrow>
      case new (Rejecter (Then_fail d)) h2 of (fl, h3) \<Rightarrow>
      case State_SetFunc n p dn fl h3 of
        Inl x \<Rightarrow> Inl x
      | Inr h4 \<Rightarrow> Inr (Deffered_GetPromise d, h4))"

definition Promise_Exception ::
  "nat \<Rightarrow> nat \<Rightarrow> (SException \<Rightarrow> returned) \<Rightarrow> nat \<Rightarrow> heap \<Rightarrow> failure + nat \<times> heap" where
  "Promise_Exception n l func p h =
     (case Deffered_new h of (d, h1) \<Rightarrow>
      case new (Rejecter (Exception_fail l func d)) h1 of (fl, h2) \<Rightarrow>
      case State_SetFail n p fl h2 of
        Inl x \<Rightarrow> Inl x
      | Inr h3 \<Rightarrow> Inr (Deffered_GetPromise d, h3))"

definition Promise_Finally ::
  "nat \<Rightarrow> nat \<Rightarrow> (SException \<Rightarrow> bool) \<Rightarrow> nat \<Rightarrow> heap \<Rightarrow> failure + heap" where
  "Promise_Finally n l func p h =
     (case new (Resolver (Finally_done l func)) h of (dn, h1) \<Rightarrow>
      case new (Rejecter (Finally_fail l func)) h1 of (fl, h2) \<Rightarrow>
      State_SetFunc n p dn fl h2)"

definition MakeReadyPromise :: "nat \<Rightarrow> tuple \<Rightarrow> heap \<Rightarrow> failure + nat \<times> heap" where
  "MakeReadyPromise n v h =
     (case Deffered_new h of (d, h1) \<Rightarrow>
      case Deffered_SetValue n d v h1 of
        Inl x \<Rightarrow> Inl x
      | Inr h2 \<Rightarrow> Inr (Deffered_GetPromise d, h2))"

text \<open>
  Both overloads of \<^verbatim>\<open>MakeException\<close>: the one taking \<^verbatim>\<open>std::exception *\<close> wraps the
  pointer in an \<^verbatim>\<open>SException\<close> first, which is the same value here.
\<close>

definition MakeException :: "nat \<Rightarrow> SException \<Rightarrow> heap \<Rightarrow> failure + nat \<times> heap" where
  "MakeException n e h =
     (case Deffered_new h of (d, h1) \<Rightarrow>
      case Deffered_SetException n d e h1 of
        Inl x \<Rightarrow> Inl x
      | Inr h2 \<Rightarrow> Inr (Deffered_GetPromise d, h2))"

subsection \<open>The driver\<close>

text \<open>
  The six lambdas of \<^verbatim>\<open>main\<close>, labelled 1 to 6 in the order they are written. The driver
  takes the error as \<^verbatim>\<open>std::exception *\<close>; here it is the \<^verbatim>\<open>SException\<close> of the header,
  and \<^verbatim>\<open>e->what()\<close> is its description. A bundle of another shape than the lambda's
  parameters cannot be passed in C++; the model lets the lambda abort on it.
\<close>

definition main_then1 :: "tuple \<Rightarrow> returned" where
  "main_then1 v =
     (case v of
        [IntV num, StrV str] \<Rightarrow>
          if num = 100 \<and> str = ''PromiseDemo'' then Ready [IntV 100, IntV 200] else Aborted
      | _ \<Rightarrow> Aborted)"

definition main_then2 :: "tuple \<Rightarrow> returned" where
  "main_then2 v =
     (case v of
        [IntV x, IntV y] \<Rightarrow> if x = 100 \<and> y = 200 then Excep (Some ''NonExcep'') else Aborted
      | _ \<Rightarrow> Aborted)"

definition main_then3 :: "tuple \<Rightarrow> returned" where
  "main_then3 v = Aborted"

definition main_exception4 :: "SException \<Rightarrow> returned" where
  "main_exception4 e =
     (case e of None \<Rightarrow> Aborted | Some w \<Rightarrow> if w = ''NonExcep'' then Ready [] else Aborted)"

definition main_then5 :: "tuple \<Rightarrow> returned" where
  "main_then5 v = Excep (Some ''TestString Exception'')"

definition main_finally6 :: "SException \<Rightarrow> bool" where
  "main_finally6 e = (case e of None \<Rightarrow> False | Some w \<Rightarrow> w = ''TestString Exception'')"

definition main :: "nat \<Rightarrow> failure + heap" where
  "main n =
     (case MakeReadyPromise n [IntV 100, StrV ''PromiseDemo''] heap_init of
        Inl x \<Rightarrow> Inl x
      | Inr (fut, h0) \<Rightarrow>
     (case Promise_Then n 1 main_then1 fut h0 of
        Inl x \<Rightarrow> Inl x
      | Inr (p1, h1) \<Rightarrow>
     (case Promise_Then n 2 main_then2 p1 h1 of
        Inl x \<Rightarrow> Inl x
      | Inr (p2, h2) \<Rightarrow>
     (case Promise_Then n 3 main_then3 p2 h2 of
        Inl x \<Rightarrow> Inl x
      | Inr (p3, h3) \<Rightarrow>
     (case Promise_Exception n 4 main_exception4 p3 h3 of
        Inl x \<Rightarrow> Inl x
      | Inr (p4, h4) \<Rightarrow>
     (case Promise_Then n 5 main_then5 p4 h4 of
        Inl x \<Rightarrow> Inl x
      | Inr (p5, h5) \<Rightarrow> Promise_Finally n 6 main_finally6 p5 h5))))))"

subsection \<open>Programs over the public interface\<close>

text \<open>
  A client program is a sequence of calls of the public interface: constructing a
  \<^verbatim>\<open>Deffered\<close>, the factories, settling, the three operators, the consuming reads and
  \<^verbatim>\<open>Reset\<close>. Handles are addresses, and addresses are handed out in order, so every
  straight-line client is such a sequence. \<open>run\<close> stops at the first failure.
\<close>

datatype api =
    Api_Deffered
  | Api_MakeReadyPromise tuple
  | Api_MakeException SException
  | Api_SetValue nat tuple
  | Api_SetException nat SException
  | Api_Then nat "tuple \<Rightarrow> returned" nat
  | Api_Exception nat "SException \<Rightarrow> returned" nat
  | Api_Finally nat "SException \<Rightarrow> bool" nat
  | Api_GetValue nat
  | Api_GetException nat
  | Api_Reset nat

fun exec :: "nat \<Rightarrow> api \<Rightarrow> heap \<Rightarrow> failure + heap" where
  "exec n Api_Deffered h = Inr (snd (Deffered_new h))"
| "exec n (Api_MakeReadyPromise v) h = map_sum id snd (MakeReadyPromise n v h)"
| "exec n (Api_MakeException e) h = map_sum id snd (MakeException n e h)"
| "exec n (Api_SetValue d v) h = Deffered_SetValue n d v h"
| "exec n (Api_SetException d e) h = Deffered_SetException n d e h"
| "exec n (Api_Then l func p) h = map_sum id snd (Promise_Then n l func p h)"
| "exec n (Api_Exception l func p) h = map_sum id snd (Promise_Exception n l func p h)"
| "exec n (Api_Finally l func p) h = Promise_Finally n l func p h"
| "exec n (Api_GetValue p) h = Inr (snd (Promise_GetValue p h))"
| "exec n (Api_GetException p) h = Inr (snd (Promise_GetException p h))"
| "exec n (Api_Reset d) h = Inr (Deffered_Reset d h)"

fun run :: "nat \<Rightarrow> api list \<Rightarrow> heap \<Rightarrow> failure + heap" where
  "run n [] h = Inr h"
| "run n (c # cs) h = (case exec n c h of Inl x \<Rightarrow> Inl x | Inr h' \<Rightarrow> run n cs h')"

subsection \<open>Well-formed stores\<close>

text \<open>
  The invariant of the stores the interface builds: a success slot points to a live
  \<^verbatim>\<open>Resolver\<close>, a failure slot to a live \<^verbatim>\<open>Rejecter\<close>, both allocated, and no
  continuation object sits in two slots. \<open>safe\<close> is what an operation started in such a
  store ends with: a well-formed store, or a failure that is neither of the traps.
\<close>

definition is_Resolver :: "Runnable option \<Rightarrow> bool" where
  "is_Resolver x = (case x of Some (Resolver f) \<Rightarrow> True | _ \<Rightarrow> False)"

definition is_Rejecter :: "Runnable option \<Rightarrow> bool" where
  "is_Rejecter x = (case x of Some (Rejecter f) \<Rightarrow> True | _ \<Rightarrow> False)"

definition wf :: "heap \<Rightarrow> bool" where
  "wf h \<longleftrightarrow>
     (\<forall>a r. s_done (states h a) = Some r \<longrightarrow> r < nobjs h \<and> is_Resolver (objs h r)) \<and>
     (\<forall>a r. s_fail (states h a) = Some r \<longrightarrow> r < nobjs h \<and> is_Rejecter (objs h r)) \<and>
     (\<forall>a b r. (s_done (states h a) = Some r \<or> s_fail (states h a) = Some r) \<longrightarrow>
              (s_done (states h b) = Some r \<or> s_fail (states h b) = Some r) \<longrightarrow> a = b)"

definition safe :: "failure + heap \<Rightarrow> bool" where
  "safe r = (case r of Inl x \<Rightarrow> x \<noteq> Assert0 \<and> x \<noteq> UseAfterDelete | Inr h \<Rightarrow> wf h)"

definition safe2 :: "failure + nat \<times> heap \<Rightarrow> bool" where
  "safe2 r = (case r of Inl x \<Rightarrow> x \<noteq> Assert0 \<and> x \<noteq> UseAfterDelete | Inr (p, h) \<Rightarrow> wf h)"

definition unref :: "heap \<Rightarrow> nat \<Rightarrow> bool" where
  "unref h r \<longleftrightarrow> (\<forall>a. s_done (states h a) \<noteq> Some r \<and> s_fail (states h a) \<noteq> Some r)"

subsection \<open>What a run leaves alone, and stalled stages\<close>

text \<open>
  \<open>frame h h'\<close>: from \<open>h\<close> to \<open>h'\<close> no continuation object was made, changed or deleted, no
  state was given up and no log entry was lost; settling and dispatch do no more than
  that to the store.
\<close>

definition frame :: "heap \<Rightarrow> heap \<Rightarrow> bool" where
  "frame h h' \<longleftrightarrow>
     objs h' = objs h \<and> nobjs h' = nobjs h \<and> nstates h \<le> nstates h' \<and>
     set (trace h) \<subseteq> set (trace h')"

definition framed :: "heap \<Rightarrow> failure + heap \<Rightarrow> bool" where
  "framed h r = (case r of Inl x \<Rightarrow> True | Inr h' \<Rightarrow> frame h h')"

definition framed2 :: "heap \<Rightarrow> failure + nat \<times> heap \<Rightarrow> bool" where
  "framed2 h r = (case r of Inl x \<Rightarrow> True | Inr (p, h') \<Rightarrow> frame h h' \<and> p = nstates h)"

text \<open>
  \<open>called l h\<close>: the log has a call of an error continuation labelled \<open>l\<close>.
  \<open>allowed ao l c\<close>: the client call \<open>c\<close> settles nothing through a \<^verbatim>\<open>Deffered\<close>, except
  that with \<open>ao = Some a\<close> it may fulfil stage \<open>a\<close>, and it labels no error continuation
  \<open>l\<close>. The factories, the operators, the reads and \<^verbatim>\<open>Reset\<close> are allowed on every stage.
  \<open>quiet k l n x\<close>: the closure \<open>x\<close> captures a stage from address \<open>k\<close> on and below \<open>n\<close>,
  if any, and reports to no error continuation labelled \<open>l\<close>.
  \<open>stalled ao d R l h\<close>: stage \<open>d\<close> is pending and no error continuation labelled \<open>l\<close> has
  been called; the continuation objects from \<open>R\<close> on are quiet from \<open>Suc d\<close> on; and
  the success slot of the stage in \<open>ao\<close> and both slots of the stages after \<open>d\<close> hold
  such objects only.
\<close>

fun is_CallE :: "nat \<Rightarrow> event \<Rightarrow> bool" where
  "is_CallE l (CallE l' e) = (l' = l)"
| "is_CallE l (CallV l' v) = False"

definition called :: "nat \<Rightarrow> heap \<Rightarrow> bool" where
  "called l h = list_ex (is_CallE l) (trace h)"


fun quiet :: "nat \<Rightarrow> nat \<Rightarrow> nat \<Rightarrow> Runnable \<Rightarrow> bool" where
  "quiet k l n (Resolver (Then_done l' f t)) = (k \<le> t \<and> t < n)"
| "quiet k l n (Resolver (Finally_done l' f)) = (l' \<noteq> l)"
| "quiet k l n (Rejecter (Then_fail t)) = (k \<le> t \<and> t < n)"
| "quiet k l n (Rejecter (Exception_fail l' f t)) = (k \<le> t \<and> t < n \<and> l' \<noteq> l)"
| "quiet k l n (Rejecter (Finally_fail l' f)) = (l' \<noteq> l)"

definition stalled :: "nat option \<Rightarrow> nat \<Rightarrow> nat \<Rightarrow> nat \<Rightarrow> heap \<Rightarrow> bool" where
  "stalled ao d R l h \<longleftrightarrow>
     (\<forall>a. ao = Some a \<longrightarrow> a < d) \<and> d < nstates h \<and> R \<le> nobjs h \<and>
     s_st (states h d) = pending \<and> \<not> called l h \<and>
     (\<forall>r x. R \<le> r \<longrightarrow> r < nobjs h \<longrightarrow> objs h r = Some x \<longrightarrow> quiet (Suc d) l (nstates h) x) \<and>
     (\<forall>a r. ao = Some a \<longrightarrow> s_done (states h a) = Some r \<longrightarrow> R \<le> r \<and> r < nobjs h) \<and>
     (\<forall>b r. d < b \<longrightarrow> b < nstates h \<longrightarrow>
        s_done (states h b) = Some r \<or> s_fail (states h b) = Some r \<longrightarrow> R \<le> r \<and> r < nobjs h)"

definition kept :: "nat option \<Rightarrow> nat \<Rightarrow> nat \<Rightarrow> nat \<Rightarrow> failure + heap \<Rightarrow> bool" where
  "kept ao d R l r = (case r of Inl x \<Rightarrow> True | Inr h' \<Rightarrow> stalled ao d R l h')"

definition kept2 :: "nat option \<Rightarrow> nat \<Rightarrow> nat \<Rightarrow> nat \<Rightarrow> failure + nat \<times> heap \<Rightarrow> bool" where
  "kept2 ao d R l r = (case r of Inl x \<Rightarrow> True | Inr (p, h') \<Rightarrow> stalled ao d R l h')"

subsection \<open>Example stores\<close>

text \<open>
  \<open>three_stages\<close> holds a rejected stage (address 0), a pending one (1) and a fulfilled
  one (2), built with the factories. \<open>ready_100\<close> is the store after
  \<^verbatim>\<open>MakeReadyPromise(100)\<close>, \<open>deffered_100\<close> the store after
  \<^verbatim>\<open>Deffered<int> d; d.SetValue(100);\<close>. \<open>rejected_E\<close> is the store after
  \<^verbatim>\<open>MakeException(E)\<close>, \<open>ready_100X\<close> the one after \<^verbatim>\<open>MakeReadyPromise(100, "X")\<close>, and
  \<open>one_pending\<close> the one after \<^verbatim>\<open>Deffered<int> d;\<close>. \<open>two_runnables\<close> holds one pending stage and an unregistered
  \<^verbatim>\<open>Resolver\<close> (object 0) and \<^verbatim>\<open>Rejecter\<close> (object 1) around a terminal continuation
  labelled 7; \<open>registered_runnables\<close> is that store with both registered on the stage,
  \<open>fulfilled_runnables\<close> and \<open>rejected_runnables\<close> are that store with the stage settled
  and nothing registered. \<open>finally_twice\<close> is \<^verbatim>\<open>p.Finally(h1); p.Finally(h2);\<close> on a pending promise.
\<close>

definition three_stages :: heap where
  "three_stages =
     (case MakeException 1 (Some ''E'') heap_init of
        Inl x \<Rightarrow> heap_init
      | Inr (p0, h0) \<Rightarrow>
          (case Deffered_new h0 of (p1, h1) \<Rightarrow>
             (case MakeReadyPromise 1 [IntV 100, StrV ''X''] h1 of
                Inl x \<Rightarrow> h1
              | Inr (p2, h2) \<Rightarrow> h2)))"

definition ready_100 :: heap where
  "ready_100 = snd (projr (MakeReadyPromise 1 [IntV 100] heap_init))"

definition deffered_100 :: heap where
  "deffered_100 = projr (Deffered_SetValue 1 0 [IntV 100] (snd (Deffered_new heap_init)))"

definition rejected_E :: heap where
  "rejected_E = snd (projr (MakeException 1 (Some ''E'') heap_init))"


definition one_pending :: heap where
  "one_pending = snd (Deffered_new heap_init)"

definition returns :: "SException \<Rightarrow> bool" where
  "returns e = True"

definition two_runnables :: heap where
  "two_runnables =
     snd (new (Rejecter (Finally_fail 7 returns))
       (snd (new (Resolver (Finally_done 7 returns)) (snd (Deffered_new heap_init)))))"

definition registered_runnables :: heap where
  "registered_runnables = projr (State_SetFunc 0 0 0 1 two_runnables)"

definition fulfilled_runnables :: heap where
  "fulfilled_runnables = projr (State_SetValue 1 0 [IntV 5] two_runnables)"

definition rejected_runnables :: heap where
  "rejected_runnables = projr (State_SetException 1 0 (Some ''E'') two_runnables)"

definition finally_twice :: "failure + heap" where
  "finally_twice =
     (case Promise_Finally 1 1 returns 0 (snd (Deffered_new heap_init)) of
        Inl x \<Rightarrow> Inl x
      | Inr h \<Rightarrow> Promise_Finally 1 2 returns 0 h)"

text \<open>
  \<open>fired func l x h r\<close>: the operation that started in \<open>h\<close> and ended with \<open>r\<close> called
  the terminal continuation \<open>func\<close>, labelled \<open>l\<close>, on \<open>x\<close>, once, and called nothing else: either
  the call is the one event added to the log, or the continuation's own assertion
  fired in that call.
\<close>

definition fired ::
  "(SException \<Rightarrow> bool) \<Rightarrow> nat \<Rightarrow> SException \<Rightarrow> heap \<Rightarrow> failure + heap \<Rightarrow> bool" where
  "fired func l x h r =
     (case r of
        Inl f \<Rightarrow> f = UserAssert \<and> \<not> func x
      | Inr h' \<Rightarrow> func x \<and> trace h' = trace h @ [CallE l x])"

section \<open>Lemmas\<close>

lemmas store_defs = upd_def make_shared_def new_def delete_def log_def get_value_def
  move_value_def get_exception_def Promise_GetStatus_def Promise_GetValue_def
  Promise_GetException_def State_init_def heap_init_def

lemmas api_defs = State_SetDone_def State_SetFail_def State_SetFunc_def State_Reset_def
  State_dtor_def Deffered_new_def Deffered_GetPromise_def Deffered_SetValue_def
  Deffered_SetException_def Deffered_Reset_def Promise_Then_def Promise_Exception_def
  Promise_Finally_def MakeReadyPromise_def MakeException_def

lemmas main_defs = main_def main_then1_def main_then2_def main_then3_def main_exception4_def
  main_then5_def main_finally6_def

lemma three_stages_simps:
  "nstates three_stages = 3" "nobjs three_stages = 0" "trace three_stages = []"
  "states three_stages 0 = State_init\<lparr>s_st := rejected, s_e := Some ''E''\<rparr>"
  "states three_stages 1 = State_init"
  "states three_stages (Suc 0) = State_init"
  "states three_stages 2 = State_init\<lparr>s_st := fulfilled, s_value := [IntV 100, StrV ''X'']\<rparr>"
  by (simp_all add: three_stages_def api_defs store_defs)

subsection \<open>The invariant is kept\<close>

text \<open>
  Settling and dispatch keep a well-formed store well-formed and end in neither trap
  (\<open>dispatch_safe\<close>, by induction along the calls); so do the registering functions on
  a fresh continuation object, and with them every call of the interface.
\<close>

lemma wf_upd:
  "wf h \<Longrightarrow> s_done (f (states h a)) = s_done (states h a) \<Longrightarrow>
   s_fail (f (states h a)) = s_fail (states h a) \<Longrightarrow> wf (upd a f h)"
  unfolding wf_def upd_def by (simp; metis)

lemma wf_log: "wf h \<Longrightarrow> wf (log ev h)"
  by (simp add: wf_def log_def)

lemma wf_make_shared: "wf h \<Longrightarrow> wf (snd (make_shared h))"
  unfolding wf_def make_shared_def State_init_def by (simp; metis)

lemma objs_upd [simp]: "objs (upd a f h) = objs h" "nobjs (upd a f h) = nobjs h"
  by (simp_all add: upd_def)

lemma states_upd [simp]: "states (upd a f h) b = (if b = a then f (states h a) else states h b)"
  by (simp add: upd_def)

lemma wf_get_value: "wf h \<Longrightarrow> wf (snd (get_value a h))"
  by (simp add: get_value_def wf_upd)

lemma wf_move_value: "wf h \<Longrightarrow> wf (snd (move_value a h))"
  by (simp add: move_value_def wf_upd)

lemma wf_get_exception: "wf h \<Longrightarrow> wf (snd (get_exception a h))"
  by (simp add: get_exception_def wf_upd)

lemma dispatch_safe:
  "wf h \<Longrightarrow> safe (State_SetValue n a v h)"
  "wf h \<Longrightarrow> safe (State_SetException n a e h)"
  "wf h \<Longrightarrow> is_Resolver (objs h r) \<Longrightarrow> safe (Runnable_SetValue n r ref h)"
  "wf h \<Longrightarrow> is_Rejecter (objs h r) \<Longrightarrow> safe (Runnable_SetException n r e h)"
  "wf h \<Longrightarrow> safe (done_call n f v h)"
  "wf h \<Longrightarrow> safe (fail_call n g e h)"
  "wf h \<Longrightarrow> safe (forward n ret d h)"
  "wf h \<Longrightarrow> safe2 (user_return n ret h)"
proof (induction n a v h and n a e h and n r ref h and n r e h and n f v h and n g e h
         and n ret d h and n ret h
       rule: State_SetValue_State_SetException_Runnable_SetValue_Runnable_SetException_done_call_fail_call_forward_user_return.induct)
  case (1 a v h)
  then show ?case by (simp add: safe_def)
next
  case (2 n a v h)
  let ?h1 = "upd a (\<lambda>s. s\<lparr>s_st := fulfilled, s_value := v\<rparr>) h"
  have w1: "wf ?h1" using 2(2) by (simp add: wf_upd)
  show ?case
  proof (cases "s_done (states h a)")
    case None
    then show ?thesis using w1 by (simp add: safe_def)
  next
    case (Some r)
    have w2: "wf (snd (get_value a ?h1))" using w1 by (rule wf_get_value)
    have "is_Resolver (objs h r)" using 2(2) Some by (auto simp: wf_def)
    then have "is_Resolver (objs (snd (get_value a ?h1)) r)" by (simp add: get_value_def)
    from 2(1)[of ?h1 r a "snd (get_value a ?h1)"] Some w2 this
    show ?thesis by (simp add: get_value_def)
  qed
next
  case (3 a e h)
  then show ?case by (simp add: safe_def)
next
  case (4 n a e h)
  let ?h1 = "upd a (\<lambda>s. s\<lparr>s_st := rejected, s_e := e\<rparr>) h"
  have w1: "wf ?h1" using 4(2) by (simp add: wf_upd)
  show ?case
  proof (cases "s_fail (states h a)")
    case None
    then show ?thesis using w1 by (simp add: safe_def)
  next
    case (Some r)
    have w2: "wf (snd (get_exception a ?h1))" using w1 by (rule wf_get_exception)
    have "is_Rejecter (objs h r)" using 4(2) Some by (auto simp: wf_def)
    then have "is_Rejecter (objs (snd (get_exception a ?h1)) r)" by (simp add: get_exception_def)
    from 4(1)[of ?h1 r "fst (get_exception a ?h1)" "snd (get_exception a ?h1)"] Some w2 this
    show ?thesis by (simp add: get_exception_def)
  qed
next
  case (5 n r ref h)
  from 5(3) obtain f where f: "objs h r = Some (Resolver f)"
    by (auto simp: is_Resolver_def split: option.splits Runnable.splits)
  have "wf (snd (move_value ref h))" using 5(2) by (rule wf_move_value)
  with 5(1)[OF f refl, of "fst (move_value ref h)" "snd (move_value ref h)"] f
  show ?case by (simp add: move_value_def)
next
  case (6 n r e h)
  from 6(3) obtain g where g: "objs h r = Some (Rejecter g)"
    by (auto simp: is_Rejecter_def split: option.splits Runnable.splits)
  with 6(1)[OF g refl] 6(2) show ?case by simp
next
  case (7 n l func d v h)
  then show ?case by (simp add: wf_log)
next
  case (8 n l func v h)
  then show ?case by (simp add: safe_def wf_log)
next
  case (9 n d e h)
  then show ?case by simp
next
  case (10 n l func d e h)
  then show ?case by (simp add: wf_log)
next
  case (11 n l func e h)
  then show ?case by (simp add: safe_def wf_log)
next
  case (12 n ret d h)
  show ?case
  proof (cases "user_return n ret h")
    case (Inl x)
    with 12(1)[OF 12(4)] show ?thesis by (simp add: safe_def safe2_def)
  next
    case (Inr b)
    obtain r h1 where b: "b = (r, h1)" by (cases b)
    have w1: "wf h1" using 12(1)[OF 12(4)] Inr b by (simp add: safe2_def)
    show ?thesis
    proof (cases "Promise_GetStatus r h1")
      case pending
      then show ?thesis using Inr b w1 by (simp add: safe_def)
    next
      case fulfilled
      have "wf (snd (Promise_GetValue r h1))" using w1
        by (simp add: Promise_GetValue_def get_value_def wf_upd wf_move_value)
      with 12(2)[OF Inr b[symmetric] fulfilled, of "fst (Promise_GetValue r h1)" "snd (Promise_GetValue r h1)"]
      show ?thesis using Inr b fulfilled by (simp add: split_beta)
    next
      case rejected
      have "wf (snd (Promise_GetException r h1))" using w1
        by (simp add: Promise_GetException_def wf_get_exception)
      with 12(3)[OF Inr b[symmetric] rejected, of "fst (Promise_GetException r h1)" "snd (Promise_GetException r h1)"]
      show ?thesis using Inr b rejected by (simp add: split_beta)
    qed
  qed
next
  case (13 n v h)
  have "wf (snd (make_shared h))" using 13(2) by (rule wf_make_shared)
  with 13(1)[of "fst (make_shared h)" "snd (make_shared h)"]
  show ?case by (auto simp: safe_def safe2_def split_beta split: sum.splits)
next
  case (14 n e h)
  have "wf (snd (make_shared h))" using 14(2) by (rule wf_make_shared)
  with 14(1)[of "fst (make_shared h)" "snd (make_shared h)"]
  show ?case by (auto simp: safe_def safe2_def split_beta split: sum.splits)
next
  case (15 n h)
  then show ?case by (simp add: safe2_def wf_make_shared split_beta)
next
  case (16 n h)
  then show ?case by (simp add: safe2_def)
qed

lemma wf_doneD: "wf h \<Longrightarrow> s_done (states h a) = Some r \<Longrightarrow> r < nobjs h \<and> is_Resolver (objs h r)"
  by (simp add: wf_def)

lemma wf_failD: "wf h \<Longrightarrow> s_fail (states h a) = Some r \<Longrightarrow> r < nobjs h \<and> is_Rejecter (objs h r)"
  by (simp add: wf_def)

lemma wf_injD:
  "wf h \<Longrightarrow> s_done (states h a) = Some r \<or> s_fail (states h a) = Some r \<Longrightarrow>
   s_done (states h b) = Some r \<or> s_fail (states h b) = Some r \<Longrightarrow> a = b"
  unfolding wf_def by blast

lemma kinds_differ: "is_Resolver x \<Longrightarrow> is_Rejecter x \<Longrightarrow> False"
  by (auto simp: is_Resolver_def is_Rejecter_def split: option.splits Runnable.splits)

lemma wfI:
  assumes "\<And>a r. s_done (states h a) = Some r \<Longrightarrow> r < nobjs h \<and> is_Resolver (objs h r)"
    and "\<And>a r. s_fail (states h a) = Some r \<Longrightarrow> r < nobjs h \<and> is_Rejecter (objs h r)"
    and "\<And>a b r. s_done (states h a) = Some r \<or> s_fail (states h a) = Some r \<Longrightarrow>
           s_done (states h b) = Some r \<or> s_fail (states h b) = Some r \<Longrightarrow> a = b"
  shows "wf h"
  unfolding wf_def using assms by blast

lemma new_fields:
  "states (snd (new x h)) = states h" "nobjs (snd (new x h)) = Suc (nobjs h)"
  "objs (snd (new x h)) r = (if r = nobjs h then Some x else objs h r)"
  "fst (new x h) = nobjs h"
  by (simp_all add: new_def)

lemma wf_new:
  assumes "wf h"
  shows "wf (snd (new x h))"
proof (rule wfI)
  fix a r assume "s_done (states (snd (new x h)) a) = Some r"
  then have "s_done (states h a) = Some r" by (simp add: new_fields)
  from wf_doneD[OF assms this]
  show "r < nobjs (snd (new x h)) \<and> is_Resolver (objs (snd (new x h)) r)"
    by (simp add: new_fields)
next
  fix a r assume "s_fail (states (snd (new x h)) a) = Some r"
  then have "s_fail (states h a) = Some r" by (simp add: new_fields)
  from wf_failD[OF assms this]
  show "r < nobjs (snd (new x h)) \<and> is_Rejecter (objs (snd (new x h)) r)"
    by (simp add: new_fields)
next
  fix a b r
  assume "s_done (states (snd (new x h)) a) = Some r \<or> s_fail (states (snd (new x h)) a) = Some r"
    and "s_done (states (snd (new x h)) b) = Some r \<or> s_fail (states (snd (new x h)) b) = Some r"
  then show "a = b" using wf_injD[OF assms, of a r b] by (simp add: new_fields)
qed

lemma unref_new:
  assumes "wf h"
  shows "unref (snd (new x h)) (nobjs h)"
  unfolding unref_def
proof (intro allI conjI notI)
  fix a assume "s_done (states (snd (new x h)) a) = Some (nobjs h)"
  then have "s_done (states h a) = Some (nobjs h)" by (simp add: new_fields)
  from wf_doneD[OF assms this] show False by simp
next
  fix a assume "s_fail (states (snd (new x h)) a) = Some (nobjs h)"
  then have "s_fail (states h a) = Some (nobjs h)" by (simp add: new_fields)
  from wf_failD[OF assms this] show False by simp
qed

lemma unref_new_keep: "unref h r \<Longrightarrow> unref (snd (new x h)) r"
  by (simp add: new_fields unref_def)

lemma unrefD: "unref h r \<Longrightarrow> s_done (states h a) \<noteq> Some r \<and> s_fail (states h a) \<noteq> Some r"
  by (simp add: unref_def)

lemma wf_set_done:
  assumes "wf h" and "unref h dn" and "dn < nobjs h" and "is_Resolver (objs h dn)"
  shows "wf (upd a (\<lambda>s. s\<lparr>s_done := Some dn\<rparr>) h)"
proof (rule wfI)
  fix b r assume "s_done (states (upd a (\<lambda>s. s\<lparr>s_done := Some dn\<rparr>) h) b) = Some r"
  then have "r = dn \<or> s_done (states h b) = Some r" by (simp split: if_splits)
  then show "r < nobjs (upd a (\<lambda>s. s\<lparr>s_done := Some dn\<rparr>) h) \<and>
             is_Resolver (objs (upd a (\<lambda>s. s\<lparr>s_done := Some dn\<rparr>) h) r)"
    using assms(3,4) wf_doneD[OF assms(1), of b r] by auto
next
  fix b r assume "s_fail (states (upd a (\<lambda>s. s\<lparr>s_done := Some dn\<rparr>) h) b) = Some r"
  then have "s_fail (states h b) = Some r" by (simp split: if_splits)
  from wf_failD[OF assms(1) this]
  show "r < nobjs (upd a (\<lambda>s. s\<lparr>s_done := Some dn\<rparr>) h) \<and>
        is_Rejecter (objs (upd a (\<lambda>s. s\<lparr>s_done := Some dn\<rparr>) h) r)"
    by simp
next
  fix b c r
  let ?h = "upd a (\<lambda>s. s\<lparr>s_done := Some dn\<rparr>) h"
  assume b: "s_done (states ?h b) = Some r \<or> s_fail (states ?h b) = Some r"
    and c: "s_done (states ?h c) = Some r \<or> s_fail (states ?h c) = Some r"
  show "b = c"
  proof (cases "r = dn")
    case True
    from b True unrefD[OF assms(2)] have "b = a" by (auto split: if_splits)
    moreover from c True unrefD[OF assms(2)] have "c = a" by (auto split: if_splits)
    ultimately show ?thesis by simp
  next
    case False
    from b False have "s_done (states h b) = Some r \<or> s_fail (states h b) = Some r"
      by (auto split: if_splits)
    moreover from c False have "s_done (states h c) = Some r \<or> s_fail (states h c) = Some r"
      by (auto split: if_splits)
    ultimately show ?thesis by (rule wf_injD[OF assms(1)])
  qed
qed

lemma wf_set_fail:
  assumes "wf h" and "unref h fl" and "fl < nobjs h" and "is_Rejecter (objs h fl)"
  shows "wf (upd a (\<lambda>s. s\<lparr>s_fail := Some fl\<rparr>) h)"
proof (rule wfI)
  fix b r assume "s_done (states (upd a (\<lambda>s. s\<lparr>s_fail := Some fl\<rparr>) h) b) = Some r"
  then have "s_done (states h b) = Some r" by (simp split: if_splits)
  from wf_doneD[OF assms(1) this]
  show "r < nobjs (upd a (\<lambda>s. s\<lparr>s_fail := Some fl\<rparr>) h) \<and>
        is_Resolver (objs (upd a (\<lambda>s. s\<lparr>s_fail := Some fl\<rparr>) h) r)"
    by simp
next
  fix b r assume "s_fail (states (upd a (\<lambda>s. s\<lparr>s_fail := Some fl\<rparr>) h) b) = Some r"
  then have "r = fl \<or> s_fail (states h b) = Some r" by (simp split: if_splits)
  then show "r < nobjs (upd a (\<lambda>s. s\<lparr>s_fail := Some fl\<rparr>) h) \<and>
             is_Rejecter (objs (upd a (\<lambda>s. s\<lparr>s_fail := Some fl\<rparr>) h) r)"
    using assms(3,4) wf_failD[OF assms(1), of b r] by auto
next
  fix b c r
  let ?h = "upd a (\<lambda>s. s\<lparr>s_fail := Some fl\<rparr>) h"
  assume b: "s_done (states ?h b) = Some r \<or> s_fail (states ?h b) = Some r"
    and c: "s_done (states ?h c) = Some r \<or> s_fail (states ?h c) = Some r"
  show "b = c"
  proof (cases "r = fl")
    case True
    from b True unrefD[OF assms(2)] have "b = a" by (auto split: if_splits)
    moreover from c True unrefD[OF assms(2)] have "c = a" by (auto split: if_splits)
    ultimately show ?thesis by simp
  next
    case False
    from b False have "s_done (states h b) = Some r \<or> s_fail (states h b) = Some r"
      by (auto split: if_splits)
    moreover from c False have "s_done (states h c) = Some r \<or> s_fail (states h c) = Some r"
      by (auto split: if_splits)
    ultimately show ?thesis by (rule wf_injD[OF assms(1)])
  qed
qed

lemma unref_set_done: "unref h r \<Longrightarrow> r \<noteq> dn \<Longrightarrow> unref (upd a (\<lambda>s. s\<lparr>s_done := Some dn\<rparr>) h) r"
  by (simp add: unref_def)

lemma upd_upd: "upd a f (upd a g h) = upd a (\<lambda>s. f (g s)) h"
  by (simp add: upd_def)

lemma SetDone_unfold:
  "State_SetDone n a dn h =
     (if s_st (states h a) = fulfilled
      then Runnable_SetValue n dn a
             (upd a (\<lambda>s. s\<lparr>s_st := pending\<rparr>) (upd a (\<lambda>s. s\<lparr>s_done := Some dn\<rparr>) h))
      else Inr (upd a (\<lambda>s. s\<lparr>s_done := Some dn\<rparr>) h))"
  by (simp add: State_SetDone_def get_value_def Let_def del: Runnable_SetValue.simps)

lemma SetFail_unfold:
  "State_SetFail n a fl h =
     (if s_st (states h a) = rejected
      then Runnable_SetException n fl (s_e (states h a))
             (upd a (\<lambda>s. s\<lparr>s_st := pending, s_e := None\<rparr>) (upd a (\<lambda>s. s\<lparr>s_fail := Some fl\<rparr>) h))
      else Inr (upd a (\<lambda>s. s\<lparr>s_fail := Some fl\<rparr>) h))"
  by (simp add: State_SetFail_def get_exception_def Let_def del: Runnable_SetException.simps)

lemma SetFunc_unfold:
  "State_SetFunc n a dn fl h =
     (case s_st (states h a) of
        fulfilled \<Rightarrow> Runnable_SetValue n dn a
             (upd a (\<lambda>s. s\<lparr>s_st := pending\<rparr>)
               (upd a (\<lambda>s. s\<lparr>s_fail := Some fl\<rparr>) (upd a (\<lambda>s. s\<lparr>s_done := Some dn\<rparr>) h)))
      | rejected \<Rightarrow> Runnable_SetException n fl (s_e (states h a))
             (upd a (\<lambda>s. s\<lparr>s_st := pending, s_e := None\<rparr>)
               (upd a (\<lambda>s. s\<lparr>s_fail := Some fl\<rparr>) (upd a (\<lambda>s. s\<lparr>s_done := Some dn\<rparr>) h)))
      | pending \<Rightarrow> Inr (upd a (\<lambda>s. s\<lparr>s_fail := Some fl\<rparr>) (upd a (\<lambda>s. s\<lparr>s_done := Some dn\<rparr>) h)))"
  by (simp add: State_SetFunc_def get_value_def get_exception_def Let_def upd_upd
        del: Runnable_SetValue.simps Runnable_SetException.simps split: status.splits)

lemma safe_SetDone:
  assumes "wf h" and "unref h dn" and "dn < nobjs h" and "is_Resolver (objs h dn)"
  shows "safe (State_SetDone n a dn h)"
proof -
  let ?h1 = "upd a (\<lambda>s. s\<lparr>s_done := Some dn\<rparr>) h"
  have w1: "wf ?h1" using assms by (rule wf_set_done)
  have w2: "wf (upd a (\<lambda>s. s\<lparr>s_st := pending\<rparr>) ?h1)" using w1 by (simp add: wf_upd)
  have "safe (Runnable_SetValue n dn a (upd a (\<lambda>s. s\<lparr>s_st := pending\<rparr>) ?h1))"
    using w2 assms(4) by (intro dispatch_safe(3)) simp_all
  then show ?thesis using w1 unfolding SetDone_unfold by (simp add: safe_def)
qed

lemma safe_SetFail:
  assumes "wf h" and "unref h fl" and "fl < nobjs h" and "is_Rejecter (objs h fl)"
  shows "safe (State_SetFail n a fl h)"
proof -
  let ?h1 = "upd a (\<lambda>s. s\<lparr>s_fail := Some fl\<rparr>) h"
  have w1: "wf ?h1" using assms by (rule wf_set_fail)
  have w2: "wf (upd a (\<lambda>s. s\<lparr>s_st := pending, s_e := None\<rparr>) ?h1)" using w1 by (simp add: wf_upd)
  have "safe (Runnable_SetException n fl x (upd a (\<lambda>s. s\<lparr>s_st := pending, s_e := None\<rparr>) ?h1))" for x
    using w2 assms(4) by (intro dispatch_safe(4)) simp_all
  then show ?thesis using w1 unfolding SetFail_unfold by (simp add: safe_def)
qed

lemma safe_SetFunc:
  assumes "wf h" and "unref h dn" and "dn < nobjs h" and "is_Resolver (objs h dn)"
    and "unref h fl" and "fl < nobjs h" and "is_Rejecter (objs h fl)"
  shows "safe (State_SetFunc n a dn fl h)"
proof -
  let ?h0 = "upd a (\<lambda>s. s\<lparr>s_done := Some dn\<rparr>) h"
  let ?h1 = "upd a (\<lambda>s. s\<lparr>s_fail := Some fl\<rparr>) ?h0"
  have ne: "fl \<noteq> dn" using assms(4,7) kinds_differ by blast
  have w0: "wf ?h0" using assms(1-4) by (rule wf_set_done)
  have w1: "wf ?h1"
    using w0 unref_set_done[OF assms(5) ne] assms(6,7) by (intro wf_set_fail) simp_all
  have w2: "wf (upd a (\<lambda>s. s\<lparr>s_st := pending\<rparr>) ?h1)" using w1 by (simp add: wf_upd)
  have w3: "wf (upd a (\<lambda>s. s\<lparr>s_st := pending, s_e := None\<rparr>) ?h1)" using w1 by (simp add: wf_upd)
  have v: "safe (Runnable_SetValue n dn a (upd a (\<lambda>s. s\<lparr>s_st := pending\<rparr>) ?h1))"
    using w2 assms(4) by (intro dispatch_safe(3)) simp_all
  have e: "safe (Runnable_SetException n fl x (upd a (\<lambda>s. s\<lparr>s_st := pending, s_e := None\<rparr>) ?h1))" for x
    using w3 assms(7) by (intro dispatch_safe(4)) simp_all
  show ?thesis using w1 v e unfolding SetFunc_unfold
    by (cases "s_st (states h a)") (simp_all add: safe_def)
qed

lemma Reset_fields:
  "nobjs (State_Reset a h) = nobjs h"
  "objs (State_Reset a h) r =
     (if s_done (states h a) = Some r \<or> s_fail (states h a) = Some r then None else objs h r)"
  "states (State_Reset a h) b =
     (if b = a then (states h a)\<lparr>s_st := pending, s_done := None, s_fail := None, s_e := None\<rparr>
      else states h b)"
  by (simp_all add: State_Reset_def delete_def split: option.splits)

lemma wf_Reset:
  assumes "wf h"
  shows "wf (State_Reset a h)"
  unfolding wf_def
proof (intro conjI allI impI)
  fix b r assume "s_done (states (State_Reset a h) b) = Some r"
  then have ba: "b \<noteq> a" and d: "s_done (states h b) = Some r"
    by (auto simp: Reset_fields split: if_splits)
  from wf_doneD[OF assms d] have "r < nobjs h" "is_Resolver (objs h r)" by simp_all
  moreover from wf_injD[OF assms, of b r a] d ba
  have "\<not> (s_done (states h a) = Some r \<or> s_fail (states h a) = Some r)" by blast
  ultimately show "r < nobjs (State_Reset a h)" "is_Resolver (objs (State_Reset a h) r)"
    by (simp_all add: Reset_fields)
next
  fix b r assume "s_fail (states (State_Reset a h) b) = Some r"
  then have ba: "b \<noteq> a" and d: "s_fail (states h b) = Some r"
    by (auto simp: Reset_fields split: if_splits)
  from wf_failD[OF assms d] have "r < nobjs h" "is_Rejecter (objs h r)" by simp_all
  moreover from wf_injD[OF assms, of b r a] d ba
  have "\<not> (s_done (states h a) = Some r \<or> s_fail (states h a) = Some r)" by blast
  ultimately show "r < nobjs (State_Reset a h)" "is_Rejecter (objs (State_Reset a h) r)"
    by (simp_all add: Reset_fields)
next
  fix b c r
  assume "s_done (states (State_Reset a h) b) = Some r \<or> s_fail (states (State_Reset a h) b) = Some r"
    and "s_done (states (State_Reset a h) c) = Some r \<or> s_fail (states (State_Reset a h) c) = Some r"
  then have "s_done (states h b) = Some r \<or> s_fail (states h b) = Some r"
    and "s_done (states h c) = Some r \<or> s_fail (states h c) = Some r"
    by (auto simp: Reset_fields split: if_splits)
  then show "b = c" by (rule wf_injD[OF assms])
qed

lemma wf_heap_init: "wf heap_init"
  by (simp add: wf_def heap_init_def State_init_def)

lemma safe_map_snd: "safe2 r \<Longrightarrow> safe (map_sum id snd r)"
  by (cases r) (auto simp: safe_def safe2_def)

lemma safe2_pair:
  "safe r \<Longrightarrow> safe2 (case r of Inl x \<Rightarrow> Inl x | Inr h' \<Rightarrow> Inr (d, h'))"
  by (cases r) (auto simp: safe_def safe2_def)

lemma safe_MakeReadyPromise: "wf h \<Longrightarrow> safe2 (MakeReadyPromise n v h)"
  unfolding MakeReadyPromise_def Deffered_new_def Deffered_SetValue_def Deffered_GetPromise_def
  by (simp add: split_beta safe2_pair dispatch_safe(1) wf_make_shared)

lemma safe_MakeException: "wf h \<Longrightarrow> safe2 (MakeException n e h)"
  unfolding MakeException_def Deffered_new_def Deffered_SetException_def Deffered_GetPromise_def
  by (simp add: split_beta safe2_pair dispatch_safe(2) wf_make_shared)

lemma make_shared_fields:
  "objs (snd (make_shared h)) = objs h" "nobjs (snd (make_shared h)) = nobjs h"
  by (simp_all add: make_shared_def)

lemma is_Resolver_simps [simp]:
  "is_Resolver (Some (Resolver f))" "\<not> is_Resolver (Some (Rejecter g))" "\<not> is_Resolver None"
  by (simp_all add: is_Resolver_def)

lemma is_Rejecter_simps [simp]:
  "is_Rejecter (Some (Rejecter g))" "\<not> is_Rejecter (Some (Resolver f))" "\<not> is_Rejecter None"
  by (simp_all add: is_Rejecter_def)

lemma safe_Then:
  assumes "wf h"
  shows "safe2 (Promise_Then n l func p h)"
proof -
  let ?h1 = "snd (make_shared h)"
  let ?d = "fst (make_shared h)"
  let ?h2 = "snd (new (Resolver (Then_done l func ?d)) ?h1)"
  let ?h3 = "snd (new (Rejecter (Then_fail ?d)) ?h2)"
  have w1: "wf ?h1" using assms by (rule wf_make_shared)
  have w2: "wf ?h2" using w1 by (rule wf_new)
  have w3: "wf ?h3" using w2 by (rule wf_new)
  have u1: "unref ?h3 (nobjs ?h1)" using unref_new[OF w1] by (rule unref_new_keep)
  have u2: "unref ?h3 (nobjs ?h2)" using w2 by (rule unref_new)
  have "safe (State_SetFunc n p (nobjs ?h1) (nobjs ?h2) ?h3)"
    using w3 u1 _ _ u2 by (rule safe_SetFunc) (simp_all add: new_fields)
  then have "safe2 (case State_SetFunc n p (nobjs ?h1) (nobjs ?h2) ?h3 of
                      Inl x \<Rightarrow> Inl x | Inr h' \<Rightarrow> Inr (?d, h'))"
    by (rule safe2_pair)
  then show ?thesis
    unfolding Promise_Then_def Deffered_new_def Deffered_GetPromise_def
    by (simp add: split_beta new_fields)
qed

lemma safe_Exception:
  assumes "wf h"
  shows "safe2 (Promise_Exception n l func p h)"
proof -
  let ?h1 = "snd (make_shared h)"
  let ?d = "fst (make_shared h)"
  let ?h2 = "snd (new (Rejecter (Exception_fail l func ?d)) ?h1)"
  have w1: "wf ?h1" using assms by (rule wf_make_shared)
  have w2: "wf ?h2" using w1 by (rule wf_new)
  have u1: "unref ?h2 (nobjs ?h1)" using w1 by (rule unref_new)
  have "safe (State_SetFail n p (nobjs ?h1) ?h2)"
    using w2 u1 by (rule safe_SetFail) (simp_all add: new_fields)
  then have "safe2 (case State_SetFail n p (nobjs ?h1) ?h2 of
                      Inl x \<Rightarrow> Inl x | Inr h' \<Rightarrow> Inr (?d, h'))"
    by (rule safe2_pair)
  then show ?thesis
    unfolding Promise_Exception_def Deffered_new_def Deffered_GetPromise_def
    by (simp add: split_beta new_fields)
qed

lemma safe_Finally:
  assumes "wf h"
  shows "safe (Promise_Finally n l func p h)"
proof -
  let ?h2 = "snd (new (Resolver (Finally_done l func)) h)"
  let ?h3 = "snd (new (Rejecter (Finally_fail l func)) ?h2)"
  have w2: "wf ?h2" using assms by (rule wf_new)
  have w3: "wf ?h3" using w2 by (rule wf_new)
  have u1: "unref ?h3 (nobjs h)" using unref_new[OF assms] by (rule unref_new_keep)
  have u2: "unref ?h3 (nobjs ?h2)" using w2 by (rule unref_new)
  have "safe (State_SetFunc n p (nobjs h) (nobjs ?h2) ?h3)"
    using w3 u1 _ _ u2 by (rule safe_SetFunc) (simp_all add: new_fields)
  then show ?thesis
    by (simp add: Promise_Finally_def split_beta new_fields)
qed

lemma safe_exec: "wf h \<Longrightarrow> safe (exec n c h)"
proof (cases c)
  case Api_Deffered
  assume "wf h"
  then show ?thesis using Api_Deffered
    by (simp add: safe_def Deffered_new_def wf_make_shared)
next
  case (Api_GetValue p)
  assume "wf h"
  then have "wf (snd (move_value p (snd (get_value p h))))"
    by (intro wf_move_value wf_get_value)
  then show ?thesis using Api_GetValue
    by (simp add: safe_def Promise_GetValue_def get_value_def)
next
  case (Api_GetException p)
  assume "wf h"
  then show ?thesis using Api_GetException
    by (simp add: safe_def Promise_GetException_def wf_get_exception)
next
  case (Api_Reset d)
  assume "wf h"
  then show ?thesis using Api_Reset
    by (simp add: safe_def Deffered_Reset_def wf_Reset)
qed (simp_all add: safe_map_snd safe_MakeReadyPromise safe_MakeException safe_Then
       safe_Exception safe_Finally dispatch_safe(1,2) Deffered_SetValue_def
       Deffered_SetException_def)

lemma safe_run: "wf h \<Longrightarrow> safe (run n cs h)"
proof (induction cs arbitrary: h)
  case Nil
  then show ?case by (simp add: safe_def)
next
  case (Cons c cs)
  from safe_exec[OF Cons.prems, of n c] Cons.IH show ?case
    by (cases "exec n c h") (simp_all add: safe_def)
qed

subsection \<open>A stalled stage stays stalled\<close>

text \<open>
  Settling and dispatch only frame the store (\<open>dispatch_framed\<close>). They keep a stalled
  stage stalled (\<open>dispatch_kept\<close>) as long as what is settled is the stage in \<open>ao\<close> or a
  stage made after the stalled one, and what is run is a quiet closure; every allowed
  call of the interface does just that (\<open>kept_exec\<close>), because the closures it makes
  capture the stage it has just allocated. An \<^verbatim>\<open>Exception\<close> on a stage that is not
  rejected makes its new stage stalled (\<open>Exception_makes_stalled\<close>).
\<close>

lemma frame_refl: "frame h h"
  by (simp add: frame_def)

lemma frame_trans: "frame h h1 \<Longrightarrow> frame h1 h2 \<Longrightarrow> frame h h2"
  by (auto simp: frame_def)

lemma frame_upd: "frame h (upd a f h)"
  by (simp add: frame_def upd_def)

lemma frame_log: "frame h (log ev h)"
  by (auto simp: frame_def log_def)

lemma frame_make_shared: "frame h (snd (make_shared h))"
  by (simp add: frame_def make_shared_def)

lemma framed_trans: "frame h h1 \<Longrightarrow> framed h1 r \<Longrightarrow> framed h r"
  by (cases r) (auto simp: framed_def intro: frame_trans)

lemma dispatch_framed:
  "framed h (State_SetValue n a v h)"
  "framed h (State_SetException n a e h)"
  "framed h (Runnable_SetValue n r ref h)"
  "framed h (Runnable_SetException n r e h)"
  "framed h (done_call n f v h)"
  "framed h (fail_call n g e h)"
  "framed h (forward n ret d h)"
  "framed2 h (user_return n ret h)"
proof (induction n a v h and n a e h and n r ref h and n r e h and n f v h and n g e h
         and n ret d h and n ret h
       rule: State_SetValue_State_SetException_Runnable_SetValue_Runnable_SetException_done_call_fail_call_forward_user_return.induct)
  case (1 a v h)
  then show ?case by (simp add: framed_def)
next
  case (2 n a v h)
  let ?h1 = "upd a (\<lambda>s. s\<lparr>s_st := fulfilled, s_value := v\<rparr>) h"
  show ?case
  proof (cases "s_done (states h a)")
    case None
    then show ?thesis by (simp add: framed_def frame_upd)
  next
    case (Some r)
    have "frame h (snd (get_value a ?h1))"
      by (simp add: get_value_def frame_def upd_def)
    from framed_trans[OF this 2[of ?h1 r a "snd (get_value a ?h1)"]] Some
    show ?thesis by (simp add: get_value_def)
  qed
next
  case (3 a e h)
  then show ?case by (simp add: framed_def)
next
  case (4 n a e h)
  let ?h1 = "upd a (\<lambda>s. s\<lparr>s_st := rejected, s_e := e\<rparr>) h"
  show ?case
  proof (cases "s_fail (states h a)")
    case None
    then show ?thesis by (simp add: framed_def frame_upd)
  next
    case (Some r)
    have "frame h (snd (get_exception a ?h1))"
      by (simp add: get_exception_def frame_def upd_def)
    from framed_trans[OF this 4[of ?h1 r "fst (get_exception a ?h1)" "snd (get_exception a ?h1)"]]
      Some
    show ?thesis by (simp add: get_exception_def)
  qed
next
  case (5 n r ref h)
  show ?case
  proof (cases "objs h r")
    case None
    then show ?thesis by (simp add: framed_def)
  next
    case (Some x)
    show ?thesis
    proof (cases x)
      case (Resolver f)
      have "frame h (snd (move_value ref h))" by (simp add: move_value_def frame_upd)
      from framed_trans[OF this
          5[OF Some Resolver, of "fst (move_value ref h)" "snd (move_value ref h)"]]
      show ?thesis using Some Resolver by (simp add: move_value_def)
    next
      case (Rejecter g)
      then show ?thesis using Some by (simp add: framed_def)
    qed
  qed
next
  case (6 n r e h)
  show ?case
  proof (cases "objs h r")
    case None
    then show ?thesis by (simp add: framed_def)
  next
    case (Some x)
    then show ?thesis using 6[OF Some] by (cases x) (simp_all add: framed_def)
  qed
next
  case (7 n l func d v h)
  from framed_trans[OF frame_log 7] show ?case by simp
next
  case (8 n l func v h)
  then show ?case by (simp add: framed_def frame_log)
next
  case (9 n d e h)
  then show ?case by simp
next
  case (10 n l func d e h)
  from framed_trans[OF frame_log 10] show ?case by simp
next
  case (11 n l func e h)
  then show ?case by (simp add: framed_def frame_log)
next
  case (12 n ret d h)
  show ?case
  proof (cases "user_return n ret h")
    case (Inl x)
    then show ?thesis by (simp add: framed_def)
  next
    case (Inr b)
    obtain r h1 where b: "b = (r, h1)" by (cases b)
    have f1: "frame h h1" using 12(1) Inr b by (simp add: framed2_def)
    show ?thesis
    proof (cases "Promise_GetStatus r h1")
      case pending
      then show ?thesis using Inr b f1 by (simp add: framed_def)
    next
      case fulfilled
      have "frame h1 (snd (Promise_GetValue r h1))"
        by (simp add: Promise_GetValue_def get_value_def move_value_def frame_def upd_def)
      from framed_trans[OF frame_trans[OF f1 this]
          12(2)[OF Inr b[symmetric] fulfilled, of "fst (Promise_GetValue r h1)" "snd (Promise_GetValue r h1)"]]
      show ?thesis using Inr b fulfilled by (simp add: split_beta)
    next
      case rejected
      have "frame h1 (snd (Promise_GetException r h1))"
        by (simp add: Promise_GetException_def get_exception_def frame_def upd_def)
      from framed_trans[OF frame_trans[OF f1 this]
          12(3)[OF Inr b[symmetric] rejected, of "fst (Promise_GetException r h1)" "snd (Promise_GetException r h1)"]]
      show ?thesis using Inr b rejected by (simp add: split_beta)
    qed
  qed
next
  case (13 n v h)
  from framed_trans[OF frame_make_shared 13[of "fst (make_shared h)" "snd (make_shared h)"]]
  show ?case
    by (auto simp: framed_def framed2_def split_beta make_shared_def split: sum.splits)
next
  case (14 n e h)
  from framed_trans[OF frame_make_shared 14[of "fst (make_shared h)" "snd (make_shared h)"]]
  show ?case
    by (auto simp: framed_def framed2_def split_beta make_shared_def split: sum.splits)
next
  case (15 n h)
  then show ?case by (simp add: framed2_def frame_make_shared split_beta) (simp add: make_shared_def)
next
  case (16 n h)
  then show ?case by (simp add: framed2_def)
qed

lemma nstates_upd [simp]: "nstates (upd a f h) = nstates h"
  by (simp add: upd_def)

lemma called_upd [simp]: "called l (upd a f h) = called l h"
  by (simp add: called_def upd_def)

lemma called_make_shared [simp]: "called l (snd (make_shared h)) = called l h"
  by (simp add: called_def make_shared_def)

lemma called_new [simp]: "called l (snd (new x h)) = called l h"
  by (simp add: called_def new_def)

lemma called_log_CallV [simp]: "called l (log (CallV l' v) h) = called l h"
  by (simp add: called_def log_def)

lemma called_log_CallE [simp]: "called l (log (CallE l' e) h) = (l' = l \<or> called l h)"
  by (auto simp: called_def log_def)

lemma quiet_mono: "quiet k l n x \<Longrightarrow> n \<le> n' \<Longrightarrow> quiet k l n' x"
  by (induction k l n x rule: quiet.induct) simp_all

lemma stalledI:
  assumes "\<And>a. ao = Some a \<Longrightarrow> a < d" and "d < nstates h" and "R \<le> nobjs h"
    and "s_st (states h d) = pending" and "\<not> called l h"
    and "\<And>r x. R \<le> r \<Longrightarrow> r < nobjs h \<Longrightarrow> objs h r = Some x \<Longrightarrow> quiet (Suc d) l (nstates h) x"
    and "\<And>a r. ao = Some a \<Longrightarrow> s_done (states h a) = Some r \<Longrightarrow> R \<le> r \<and> r < nobjs h"
    and "\<And>b r. d < b \<Longrightarrow> b < nstates h \<Longrightarrow>
           s_done (states h b) = Some r \<or> s_fail (states h b) = Some r \<Longrightarrow> R \<le> r \<and> r < nobjs h"
  shows "stalled ao d R l h"
  unfolding stalled_def using assms by blast

lemma stalled_basics:
  assumes "stalled ao d R l h"
  shows "\<forall>a. ao = Some a \<longrightarrow> a < d" and "d < nstates h" and "R \<le> nobjs h"
    and "s_st (states h d) = pending" and "\<not> called l h"
  using assms by (simp_all add: stalled_def)

lemma stalled_quiet:
  "stalled ao d R l h \<Longrightarrow> R \<le> r \<Longrightarrow> r < nobjs h \<Longrightarrow> objs h r = Some x \<Longrightarrow>
   quiet (Suc d) l (nstates h) x"
  by (simp add: stalled_def)

lemma stalled_done_a:
  "stalled ao d R l h \<Longrightarrow> ao = Some a \<Longrightarrow> s_done (states h a) = Some r \<Longrightarrow>
   R \<le> r \<and> r < nobjs h"
  by (simp add: stalled_def)

lemma stalled_slots:
  "stalled ao d R l h \<Longrightarrow> d < b \<Longrightarrow> b < nstates h \<Longrightarrow>
   s_done (states h b) = Some r \<or> s_fail (states h b) = Some r \<Longrightarrow> R \<le> r \<and> r < nobjs h"
  unfolding stalled_def by blast

text \<open>An update of one state that leaves its slots alone, and leaves stage \<open>d\<close> pending.\<close>

lemma stalled_upd:
  assumes "stalled ao d R l h"
    and "s_done (f (states h b)) = s_done (states h b)"
    and "s_fail (f (states h b)) = s_fail (states h b)"
    and "b \<noteq> d \<or> s_st (f (states h b)) = pending"
  shows "stalled ao d R l (upd b f h)"
proof (rule stalledI)
  show "s_st (states (upd b f h) d) = pending"
    using assms(4) stalled_basics(4)[OF assms(1)] by auto
  show "\<And>a r. ao = Some a \<Longrightarrow> s_done (states (upd b f h) a) = Some r \<Longrightarrow> R \<le> r \<and> r < nobjs (upd b f h)"
    using stalled_done_a[OF assms(1)] assms(2) by (auto split: if_splits)
  show "\<And>c r. d < c \<Longrightarrow> c < nstates (upd b f h) \<Longrightarrow>
          s_done (states (upd b f h) c) = Some r \<or> s_fail (states (upd b f h) c) = Some r \<Longrightarrow>
          R \<le> r \<and> r < nobjs (upd b f h)"
    using stalled_slots[OF assms(1)] assms(2,3) by (auto split: if_splits)
  show "\<And>r x. R \<le> r \<Longrightarrow> r < nobjs (upd b f h) \<Longrightarrow> objs (upd b f h) r = Some x \<Longrightarrow>
          quiet (Suc d) l (nstates (upd b f h)) x"
    using stalled_quiet[OF assms(1)] by simp
qed (use stalled_basics[OF assms(1)] in simp_all)

lemma stalled_log:
  assumes "stalled ao d R l h" and "\<not> is_CallE l ev"
  shows "stalled ao d R l (log ev h)"
proof -
  have "\<not> called l (log ev h)"
    using stalled_basics(5)[OF assms(1)] assms(2) by (cases ev) simp_all
  then show ?thesis using assms(1) unfolding stalled_def by (simp add: log_def)
qed

lemma stalled_make_shared:
  assumes "stalled ao d R l h"
  shows "stalled ao d R l (snd (make_shared h))"
proof (rule stalledI)
  note b = stalled_basics[OF assms]
  show "s_st (states (snd (make_shared h)) d) = pending"
    using b(2,4) by (simp add: make_shared_def)
  show "\<And>a r. ao = Some a \<Longrightarrow> s_done (states (snd (make_shared h)) a) = Some r \<Longrightarrow>
          R \<le> r \<and> r < nobjs (snd (make_shared h))"
    using stalled_done_a[OF assms] b(1,2) by (auto simp: make_shared_def)
  show "\<And>c r. d < c \<Longrightarrow> c < nstates (snd (make_shared h)) \<Longrightarrow>
          s_done (states (snd (make_shared h)) c) = Some r \<or>
          s_fail (states (snd (make_shared h)) c) = Some r \<Longrightarrow>
          R \<le> r \<and> r < nobjs (snd (make_shared h))"
    using stalled_slots[OF assms]
    by (auto simp: make_shared_def State_init_def less_Suc_eq split: if_splits)
  show "quiet (Suc d) l (nstates (snd (make_shared h))) x"
    if "R \<le> r" and "r < nobjs (snd (make_shared h))" and "objs (snd (make_shared h)) r = Some x"
    for r x
  proof -
    have "quiet (Suc d) l (nstates h) x"
      using that by (intro stalled_quiet[OF assms, of r]) (simp_all add: make_shared_def)
    then show ?thesis by (rule quiet_mono) (simp add: make_shared_def)
  qed
  show "\<not> called l (snd (make_shared h))" using b(5) by simp
  show "\<And>a. ao = Some a \<Longrightarrow> a < d" using b(1) by simp
  show "d < nstates (snd (make_shared h))" using b(2) by (simp add: make_shared_def)
  show "R \<le> nobjs (snd (make_shared h))" using b(3) by (simp add: make_shared_def)
qed

lemma stalled_frame_nstates:
  "stalled ao d R l h \<Longrightarrow> frame h h' \<Longrightarrow> t < nstates h \<Longrightarrow> t < nstates h'"
  by (simp add: frame_def)

lemma dispatch_kept:
  "stalled ao d R l h \<Longrightarrow> ao = Some b \<or> (d < b \<and> b < nstates h) \<Longrightarrow>
     kept ao d R l (State_SetValue n b v h)"
  "stalled ao d R l h \<Longrightarrow> d < b \<and> b < nstates h \<Longrightarrow>
     kept ao d R l (State_SetException n b e h)"
  "stalled ao d R l h \<Longrightarrow> R \<le> r \<and> r < nobjs h \<Longrightarrow> kept ao d R l (Runnable_SetValue n r ref h)"
  "stalled ao d R l h \<Longrightarrow> R \<le> r \<and> r < nobjs h \<Longrightarrow> kept ao d R l (Runnable_SetException n r e h)"
  "stalled ao d R l h \<Longrightarrow> quiet (Suc d) l (nstates h) (Resolver f) \<Longrightarrow>
     kept ao d R l (done_call n f v h)"
  "stalled ao d R l h \<Longrightarrow> quiet (Suc d) l (nstates h) (Rejecter g) \<Longrightarrow>
     kept ao d R l (fail_call n g e h)"
  "stalled ao d R l h \<Longrightarrow> d < t \<and> t < nstates h \<Longrightarrow> kept ao d R l (forward n ret t h)"
  "stalled ao d R l h \<Longrightarrow> kept2 ao d R l (user_return n ret h)"
proof (induction n b v h and n b e h and n r ref h and n r e h and n f v h and n g e h
         and n ret t h and n ret h
       rule: State_SetValue_State_SetException_Runnable_SetValue_Runnable_SetException_done_call_fail_call_forward_user_return.induct)
  case (1 b v h)
  then show ?case by (simp add: kept_def)
next
  case (2 n b v h)
  let ?h1 = "upd b (\<lambda>s. s\<lparr>s_st := fulfilled, s_value := v\<rparr>) h"
  have bd: "b \<noteq> d" using 2(3) stalled_basics(1)[OF 2(2)] by auto
  have s1: "stalled ao d R l ?h1" using bd by (intro stalled_upd[OF 2(2)]) simp_all
  show ?case
  proof (cases "s_done (states h b)")
    case None
    then show ?thesis using s1 by (simp add: kept_def)
  next
    case (Some r)
    have r: "R \<le> r \<and> r < nobjs h"
      using 2(3) stalled_done_a[OF 2(2), of b r] stalled_slots[OF 2(2), of b r] Some by auto
    have "stalled ao d R l (snd (get_value b ?h1))"
      unfolding get_value_def snd_conv using bd by (intro stalled_upd[OF s1]) simp_all
    from 2(1)[of ?h1 r b "snd (get_value b ?h1)"] Some this r
    show ?thesis by (simp add: get_value_def)
  qed
next
  case (3 b e h)
  then show ?case by (simp add: kept_def)
next
  case (4 n b e h)
  let ?h1 = "upd b (\<lambda>s. s\<lparr>s_st := rejected, s_e := e\<rparr>) h"
  have bd: "b \<noteq> d" using 4(3) by auto
  have s1: "stalled ao d R l ?h1" using bd by (intro stalled_upd[OF 4(2)]) simp_all
  show ?case
  proof (cases "s_fail (states h b)")
    case None
    then show ?thesis using s1 by (simp add: kept_def)
  next
    case (Some r)
    have r: "R \<le> r \<and> r < nobjs h"
      using 4(3) stalled_slots[OF 4(2), of b r] Some by auto
    have "stalled ao d R l (snd (get_exception b ?h1))"
      unfolding get_exception_def snd_conv using bd by (intro stalled_upd[OF s1]) simp_all
    from 4(1)[of ?h1 r "fst (get_exception b ?h1)" "snd (get_exception b ?h1)"] Some this r
    show ?thesis by (simp add: get_exception_def)
  qed
next
  case (5 n r ref h)
  show ?case
  proof (cases "objs h r")
    case None
    then show ?thesis by (simp add: kept_def)
  next
    case (Some x)
    show ?thesis
    proof (cases x)
      case (Resolver f)
      have q: "quiet (Suc d) l (nstates h) (Resolver f)"
        using stalled_quiet[OF 5(2) _ _ Some] 5(3) Resolver by simp
      have "stalled ao d R l (snd (move_value ref h))"
        unfolding move_value_def snd_conv
        using stalled_basics(4)[OF 5(2)] by (intro stalled_upd[OF 5(2)]) auto
      from 5(1)[OF Some Resolver, of "fst (move_value ref h)" "snd (move_value ref h)"] this q
      show ?thesis using Some Resolver by (simp add: move_value_def)
    next
      case (Rejecter g)
      then show ?thesis using Some by (simp add: kept_def)
    qed
  qed
next
  case (6 n r e h)
  show ?case
  proof (cases "objs h r")
    case None
    then show ?thesis by (simp add: kept_def)
  next
    case (Some x)
    show ?thesis
    proof (cases x)
      case (Resolver f)
      then show ?thesis using Some by (simp add: kept_def)
    next
      case (Rejecter g)
      have "quiet (Suc d) l (nstates h) (Rejecter g)"
        using stalled_quiet[OF 6(2) _ _ Some] 6(3) Rejecter by simp
      from 6(1)[OF Some Rejecter 6(2) this] show ?thesis using Some Rejecter by simp
    qed
  qed
next
  case (7 n l' func t v h)
  have s: "stalled ao d R l (log (CallV l' v) h)" using 7(2) by (rule stalled_log) simp
  have "d < t \<and> t < nstates (log (CallV l' v) h)" using 7(3) by (simp add: log_def)
  from 7(1)[OF s this] show ?case by simp
next
  case (8 n l' func v h)
  have "stalled ao d R l (log (CallE l' None) h)" using 8(1) 8(2) by (intro stalled_log) simp_all
  then show ?case by (simp add: kept_def)
next
  case (9 n t e h)
  then show ?case by simp
next
  case (10 n l' func t e h)
  have s: "stalled ao d R l (log (CallE l' e) h)" using 10(2,3) by (intro stalled_log) simp_all
  have "d < t \<and> t < nstates (log (CallE l' e) h)" using 10(3) by (simp add: log_def)
  from 10(1)[OF s this] show ?case by simp
next
  case (11 n l' func e h)
  have "stalled ao d R l (log (CallE l' e) h)" using 11(1) 11(2) by (intro stalled_log) simp_all
  then show ?case by (simp add: kept_def)
next
  case (12 n ret t h)
  show ?case
  proof (cases "user_return n ret h")
    case (Inl x)
    then show ?thesis by (simp add: kept_def)
  next
    case (Inr p)
    obtain r h1 where p: "p = (r, h1)" by (cases p)
    have s1: "stalled ao d R l h1" using 12(1)[OF 12(4)] Inr p by (simp add: kept2_def)
    have "frame h h1" using dispatch_framed(8)[of h n ret] Inr p by (simp add: framed2_def)
    with 12(5) have t1: "d < t \<and> t < nstates h1" by (simp add: frame_def)
    show ?thesis
    proof (cases "Promise_GetStatus r h1")
      case pending
      then show ?thesis using Inr p s1 by (simp add: kept_def)
    next
      case fulfilled
      have s1': "stalled ao d R l (upd r (\<lambda>s. s\<lparr>s_st := pending\<rparr>) h1)"
        by (rule stalled_upd[OF s1]) simp_all
      have s2: "stalled ao d R l (snd (Promise_GetValue r h1))"
        unfolding Promise_GetValue_def get_value_def move_value_def split_conv snd_conv
        by (rule stalled_upd[OF s1']) (simp_all add: stalled_basics(4)[OF s1])
      have t2: "d < t \<and> t < nstates (snd (Promise_GetValue r h1))" using t1
        by (simp add: Promise_GetValue_def get_value_def move_value_def upd_def)
      from 12(2)[OF Inr p[symmetric] fulfilled, of "fst (Promise_GetValue r h1)" "snd (Promise_GetValue r h1)"] s2 t2
      show ?thesis using Inr p fulfilled by (simp add: split_beta)
    next
      case rejected
      have s2: "stalled ao d R l (snd (Promise_GetException r h1))"
        unfolding Promise_GetException_def get_exception_def snd_conv
        by (intro stalled_upd[OF s1]) simp_all
      have t2: "d < t \<and> t < nstates (snd (Promise_GetException r h1))" using t1
        by (simp add: Promise_GetException_def get_exception_def upd_def)
      from 12(3)[OF Inr p[symmetric] rejected, of "fst (Promise_GetException r h1)" "snd (Promise_GetException r h1)"] s2 t2
      show ?thesis using Inr p rejected by (simp add: split_beta)
    qed
  qed
next
  case (13 n v h)
  have "d < fst (make_shared h) \<and> fst (make_shared h) < nstates (snd (make_shared h))"
    using stalled_basics(2)[OF 13(2)] by (simp add: make_shared_def)
  with 13(1)[of "fst (make_shared h)" "snd (make_shared h)"] stalled_make_shared[OF 13(2)]
  show ?case by (auto simp: kept_def kept2_def split_beta split: sum.splits)
next
  case (14 n e h)
  have "d < fst (make_shared h) \<and> fst (make_shared h) < nstates (snd (make_shared h))"
    using stalled_basics(2)[OF 14(2)] by (simp add: make_shared_def)
  with 14(1)[of "fst (make_shared h)" "snd (make_shared h)"] stalled_make_shared[OF 14(2)]
  show ?case by (auto simp: kept_def kept2_def split_beta split: sum.splits)
next
  case (15 n h)
  then show ?case by (simp add: kept2_def stalled_make_shared split_beta)
next
  case (16 n h)
  then show ?case by (simp add: kept2_def)
qed



lemma new_more [simp]: "nstates (snd (new x h)) = nstates h" "trace (snd (new x h)) = trace h"
  by (simp_all add: new_def)


lemma stalled_set_done:
  assumes "stalled ao d R l h" and "R \<le> dn \<and> dn < nobjs h"
  shows "stalled ao d R l (upd b (\<lambda>s. s\<lparr>s_done := Some dn\<rparr>) h)"
proof (rule stalledI)
  note c = stalled_basics[OF assms(1)]
  let ?h = "upd b (\<lambda>s. s\<lparr>s_done := Some dn\<rparr>) h"
  show "\<And>a. ao = Some a \<Longrightarrow> a < d" using c(1) by simp
  show "d < nstates ?h" using c(2) by simp
  show "R \<le> nobjs ?h" using c(3) by simp
  show "s_st (states ?h d) = pending" using c(4) by auto
  show "\<not> called l ?h" using c(5) by simp
  show "\<And>r x. R \<le> r \<Longrightarrow> r < nobjs ?h \<Longrightarrow> objs ?h r = Some x \<Longrightarrow> quiet (Suc d) l (nstates ?h) x"
    using stalled_quiet[OF assms(1)] by simp
  show "\<And>a r. ao = Some a \<Longrightarrow> s_done (states ?h a) = Some r \<Longrightarrow> R \<le> r \<and> r < nobjs ?h"
    using stalled_done_a[OF assms(1)] assms(2) by (auto split: if_splits)
  show "\<And>c r. d < c \<Longrightarrow> c < nstates ?h \<Longrightarrow>
          s_done (states ?h c) = Some r \<or> s_fail (states ?h c) = Some r \<Longrightarrow> R \<le> r \<and> r < nobjs ?h"
    using stalled_slots[OF assms(1)] assms(2) by (auto split: if_splits)
qed


lemma kept_SetDone:
  assumes "stalled ao d R l h" and "R \<le> dn \<and> dn < nobjs h"
  shows "kept ao d R l (State_SetDone n b dn h)"
proof -
  let ?h1 = "upd b (\<lambda>s. s\<lparr>s_done := Some dn\<rparr>) h"
  have s1: "stalled ao d R l ?h1" using assms by (rule stalled_set_done)
  have "stalled ao d R l (upd b (\<lambda>s. s\<lparr>s_st := pending\<rparr>) ?h1)"
    by (rule stalled_upd[OF s1]) simp_all
  then have "kept ao d R l (Runnable_SetValue n dn b (upd b (\<lambda>s. s\<lparr>s_st := pending\<rparr>) ?h1))"
    using assms(2) by (intro dispatch_kept(3)) simp_all
  then show ?thesis using s1 unfolding SetDone_unfold by (simp add: kept_def)
qed















subsection \<open>The operators on one stage\<close>

lemma Then_on_rejected:
  assumes "p < nstates h" and "s_st (states h p) = rejected"
  shows "\<exists>h'. Promise_Then (Suc n) l func p h = Inr (nstates h, h') \<and>
           s_st (states h' (nstates h)) = rejected \<and>
           s_e (states h' (nstates h)) = s_e (states h p) \<and> trace h' = trace h"
  using assms by (simp add: api_defs store_defs)

lemma Then_on_pending:
  assumes "q < nstates h" and "s_st (states h q) = pending"
  shows "\<exists>h1 h2. Promise_Then n l func q h = Inr (nstates h, h1) \<and>
           s_st (states h1 (nstates h)) = pending \<and> trace h1 = trace h \<and>
           Deffered_SetException (Suc (Suc k)) q e h1 = Inr h2 \<and>
           s_st (states h2 (nstates h)) = rejected \<and>
           s_e (states h2 (nstates h)) = e \<and> trace h2 = trace h"
  using assms by (simp add: api_defs store_defs)



text \<open>
  Updates of different fields of a state commute; as rewrite rules these lemmas sort
  them into the order status, success slot, failure slot, value, error.
\<close>

lemma State_update_order:
  "s_st_update f1 (s_done_update f2 s) = s_done_update f2 (s_st_update f1 s)"
  "s_st_update f1 (s_fail_update f3 s) = s_fail_update f3 (s_st_update f1 s)"
  "s_st_update f1 (s_value_update f4 s) = s_value_update f4 (s_st_update f1 s)"
  "s_st_update f1 (s_e_update f5 s) = s_e_update f5 (s_st_update f1 s)"
  "s_done_update f2 (s_fail_update f3 s) = s_fail_update f3 (s_done_update f2 s)"
  "s_done_update f2 (s_value_update f4 s) = s_value_update f4 (s_done_update f2 s)"
  "s_done_update f2 (s_e_update f5 s) = s_e_update f5 (s_done_update f2 s)"
  "s_fail_update f3 (s_value_update f4 s) = s_value_update f4 (s_fail_update f3 s)"
  "s_fail_update f3 (s_e_update f5 s) = s_e_update f5 (s_fail_update f3 s)"
  "s_value_update f4 (s_e_update f5 s) = s_e_update f5 (s_value_update f4 s)"
  by (cases s; simp)+

lemma two_runnables_simps:
  "s_st (states two_runnables 0) = pending"
  "s_done (states two_runnables 0) = None" "s_fail (states two_runnables 0) = None"
  "objs two_runnables 0 = Some (Resolver (Finally_done 7 returns))"
  "objs two_runnables (Suc 0) = Some (Rejecter (Finally_fail 7 returns))"
  "trace two_runnables = []"
  by (simp_all add: two_runnables_def api_defs store_defs)

section \<open>The properties of the specification\<close>

text \<open>
  C1. The reference chain of \<^verbatim>\<open>main\<close> runs to its end with every assertion of the driver
  holding, and the continuations called are, in order: the first \<^verbatim>\<open>Then\<close> with
  \<open>(100, "PromiseDemo")\<close>, the second with \<open>(100, 200)\<close>, the \<^verbatim>\<open>Exception\<close> continuation
  with an error described as \<open>"NonExcep"\<close>, the zero-arity \<^verbatim>\<open>Then\<close> once, and \<^verbatim>\<open>Finally\<close>
  with a present error described as \<open>"TestString Exception"\<close>. The third \<^verbatim>\<open>Then\<close>
  (label 3) is not in the log: its body never runs. One unit of fuel is enough.
\<close>

theorem main_chain:
  "\<exists>h. main (Suc n) = Inr h \<and>
     trace h = [CallV 1 [IntV 100, StrV ''PromiseDemo''], CallV 2 [IntV 100, IntV 200],
                CallE 4 (Some ''NonExcep''), CallV 5 [],
                CallE 6 (Some ''TestString Exception'')]"
  by (simp add: main_defs api_defs store_defs)

text \<open>
  C2, as the specification states it, fails for the value: after \<^verbatim>\<open>MakeReadyPromise(100)\<close> the
  first \<^verbatim>\<open>GetValue\<close> returns \<open>(100)\<close> and leaves the status pending, and the second
  \<^verbatim>\<open>GetValue\<close> returns \<open>(100)\<close> again: the stored bundle was not cleared.
\<close>

theorem second_read_counterexample:
  "Promise_GetStatus 0 ready_100 = fulfilled \<and>
   fst (Promise_GetValue 0 ready_100) = [IntV 100] \<and>
   Promise_GetStatus 0 (snd (Promise_GetValue 0 ready_100)) = pending \<and>
   fst (Promise_GetValue 0 (snd (Promise_GetValue 0 ready_100))) = [IntV 100]"
  by (simp add: ready_100_def api_defs store_defs)

text \<open>
  C2, amended. A read returns what is stored and leaves the status pending. Reading the
  error leaves the stored error null, so a second read of the error returns null.
  Reading the value through \<^verbatim>\<open>Promise::GetValue\<close> leaves the stored bundle moved-from
  (every scalar element keeps its value), and that is what a second read returns;
  \<^verbatim>\<open>State::get_value\<close> by itself leaves the bundle as it is.
\<close>

theorem consuming_read:
  "fst (Promise_GetValue p h) = s_value (states h p) \<and>
   s_st (states (snd (Promise_GetValue p h)) p) = pending \<and>
   s_value (states (snd (Promise_GetValue p h)) p) = map moved_from (s_value (states h p)) \<and>
   fst (Promise_GetValue p (snd (Promise_GetValue p h))) = map moved_from (s_value (states h p)) \<and>
   moved_from (IntV i) = IntV i \<and>
   s_st (states (snd (get_value p h)) p) = pending \<and>
   s_value (states (snd (get_value p h)) p) = s_value (states h p) \<and>
   fst (Promise_GetException p h) = s_e (states h p) \<and>
   s_st (states (snd (Promise_GetException p h)) p) = pending \<and>
   s_e (states (snd (Promise_GetException p h)) p) = None \<and>
   fst (Promise_GetException p (snd (Promise_GetException p h))) = None \<and>
   s_st (states (snd (Promise_GetException p (snd (Promise_GetException p h)))) p) = pending"
  by (simp add: store_defs)

text \<open>
  C3. A \<^verbatim>\<open>Then\<close> stage passes a rejection on and does not call its continuation, in
  either order of events. On any stage \<open>p\<close> that has rejected, \<^verbatim>\<open>Then(func)\<close> returns a
  new stage that is rejected with the payload of \<open>p\<close>, and nothing is added to the log
  of continuation calls. On any pending stage \<open>q\<close>, \<^verbatim>\<open>Then(func)\<close> returns a pending new
  stage, and when \<open>q\<close> is then rejected with \<open>e\<close> the new stage is rejected with \<open>e\<close>,
  again with nothing added to the log.
\<close>

theorem Then_passes_rejection:
  "(p < nstates h \<and> s_st (states h p) = rejected \<longrightarrow>
      (\<exists>h'. Promise_Then (Suc n) l func p h = Inr (nstates h, h') \<and>
         s_st (states h' (nstates h)) = rejected \<and>
         s_e (states h' (nstates h)) = s_e (states h p) \<and> trace h' = trace h)) \<and>
   (q < nstates h \<and> s_st (states h q) = pending \<longrightarrow>
      (\<exists>h1 h2. Promise_Then n l func q h = Inr (nstates h, h1) \<and>
         s_st (states h1 (nstates h)) = pending \<and> trace h1 = trace h \<and>
         Deffered_SetException (Suc (Suc k)) q e h1 = Inr h2 \<and>
         s_st (states h2 (nstates h)) = rejected \<and>
         s_e (states h2 (nstates h)) = e \<and> trace h2 = trace h))"
  using Then_on_rejected[of p h n l func] Then_on_pending[of q h n l func k e] by blast

theorem Then_passes_rejection_witness:
  "((0::nat) < nstates rejected_E \<and> s_st (states rejected_E 0) = rejected) \<and>
   (\<exists>h'. Promise_Then (Suc 0) 7 Ready 0 rejected_E = Inr (nstates rejected_E, h') \<and>
      s_st (states h' (nstates rejected_E)) = rejected \<and>
      s_e (states h' (nstates rejected_E)) = Some ''E'' \<and> trace h' = []) \<and>
   ((0::nat) < nstates one_pending \<and> s_st (states one_pending 0) = pending) \<and>
   (\<exists>h1 h2. Promise_Then 0 7 Ready 0 one_pending = Inr (nstates one_pending, h1) \<and>
      s_st (states h1 (nstates one_pending)) = pending \<and> trace h1 = [] \<and>
      Deffered_SetException (Suc (Suc 0)) 0 (Some ''E'') h1 = Inr h2 \<and>
      s_st (states h2 (nstates one_pending)) = rejected \<and>
      s_e (states h2 (nstates one_pending)) = Some ''E'' \<and> trace h2 = [])"
proof -
  have a: "(0::nat) < nstates rejected_E \<and> s_st (states rejected_E 0) = rejected"
    and a': "s_e (states rejected_E 0) = Some ''E''" "trace rejected_E = []"
    by (simp_all add: rejected_E_def api_defs store_defs)
  have b: "(0::nat) < nstates one_pending \<and> s_st (states one_pending 0) = pending"
    and b': "trace one_pending = []"
    by (simp_all add: one_pending_def api_defs store_defs)
  from Then_passes_rejection [where p = 0 and h = rejected_E and n = 0 and l = 7 and func = Ready] a
  have c: "\<exists>h'. Promise_Then (Suc 0) 7 Ready 0 rejected_E = Inr (nstates rejected_E, h') \<and>
      s_st (states h' (nstates rejected_E)) = rejected \<and>
      s_e (states h' (nstates rejected_E)) = Some ''E'' \<and> trace h' = []"
    unfolding a' by blast
  from Then_passes_rejection [where q = 0 and h = one_pending and n = 0 and l = 7 and func = Ready
      and k = 0 and e = "Some ''E''"] b
  have d: "\<exists>h1 h2. Promise_Then 0 7 Ready 0 one_pending = Inr (nstates one_pending, h1) \<and>
      s_st (states h1 (nstates one_pending)) = pending \<and> trace h1 = [] \<and>
      Deffered_SetException (Suc (Suc 0)) 0 (Some ''E'') h1 = Inr h2 \<and>
      s_st (states h2 (nstates one_pending)) = rejected \<and>
      s_e (states h2 (nstates one_pending)) = Some ''E'' \<and> trace h2 = []"
    unfolding b' by blast
  from a c b d show ?thesis by blast
qed



text \<open>
  C5. \<^verbatim>\<open>Finally\<close> calls the terminal continuation once, whatever the outcome and in
  either order of events. On any stage that has fulfilled, \<^verbatim>\<open>Finally(func)\<close> calls
  \<open>func\<close> once, with null. On any stage that has rejected it calls \<open>func\<close> once, with the
  stored error. On any pending stage it calls nothing, and then the fulfilment of the
  stage calls \<open>func\<close> once with null, and the rejection of the stage calls it once with
  the error of that rejection.
\<close>

theorem Finally_fires_once:
  "(s_st (states h p) = fulfilled \<longrightarrow> fired func l None h (Promise_Finally n l func p h)) \<and>
   (s_st (states h p) = rejected \<longrightarrow>
      fired func l (s_e (states h p)) h (Promise_Finally n l func p h)) \<and>
   (s_st (states h p) = pending \<longrightarrow>
      (\<exists>h1. Promise_Finally n l func p h = Inr h1 \<and> trace h1 = trace h \<and>
         fired func l None h (Deffered_SetValue (Suc k) p v h1) \<and>
         fired func l e h (Deffered_SetException (Suc k) p e h1)))"
  by (simp add: api_defs store_defs fired_def)

theorem Finally_fires_once_witness:
  "s_st (states ready_100 0) = fulfilled \<and>
   fired returns 7 None ready_100 (Promise_Finally 0 7 returns 0 ready_100) \<and>
   s_st (states rejected_E 0) = rejected \<and>
   fired returns 7 (Some ''E'') rejected_E (Promise_Finally 0 7 returns 0 rejected_E) \<and>
   s_st (states one_pending 0) = pending \<and>
   (\<exists>h1. Promise_Finally 0 7 returns 0 one_pending = Inr h1 \<and> trace h1 = trace one_pending \<and>
      fired returns 7 None one_pending (Deffered_SetValue (Suc 0) 0 [IntV 100] h1) \<and>
      fired returns 7 (Some ''E'') one_pending (Deffered_SetException (Suc 0) 0 (Some ''E'') h1))"
proof -
  have a: "s_st (states ready_100 0) = fulfilled"
    by (simp add: ready_100_def api_defs store_defs)
  have b: "s_st (states rejected_E 0) = rejected" and b': "s_e (states rejected_E 0) = Some ''E''"
    by (simp_all add: rejected_E_def api_defs store_defs)
  have c: "s_st (states one_pending 0) = pending"
    by (simp add: one_pending_def api_defs store_defs)
  from Finally_fires_once [where h = ready_100 and p = 0 and func = returns and l = 7 and n = 0] a
  have d: "fired returns 7 None ready_100 (Promise_Finally 0 7 returns 0 ready_100)" by blast
  from Finally_fires_once [where h = rejected_E and p = 0 and func = returns and l = 7 and n = 0] b
  have e: "fired returns 7 (Some ''E'') rejected_E (Promise_Finally 0 7 returns 0 rejected_E)"
    unfolding b' by blast
  from Finally_fires_once [where h = one_pending and p = 0 and func = returns and l = 7 and n = 0
      and k = 0 and v = "[IntV 100]" and e = "Some ''E''"] c
  have f: "\<exists>h1. Promise_Finally 0 7 returns 0 one_pending = Inr h1 \<and> trace h1 = trace one_pending \<and>
      fired returns 7 None one_pending (Deffered_SetValue (Suc 0) 0 [IntV 100] h1) \<and>
      fired returns 7 (Some ''E'') one_pending (Deffered_SetException (Suc 0) 0 (Some ''E'') h1)"
    by blast
  from a d b e c f show ?thesis by blast
qed

text \<open>
  C6. On one stage, a continuation is dispatched once, inside whichever of the two calls
  comes second, and not before. Each line holds for every store, stage, continuation
  object and fuel that meets the condition written with it.

  Registering does not dispatch on a stage of another status: \<^verbatim>\<open>SetDone\<close> on a stage
  that is not fulfilled, \<^verbatim>\<open>SetFail\<close> on one that is not rejected and \<^verbatim>\<open>SetFunc\<close> on a
  pending one only fill the slots and return. Settling a stage whose matching slot is
  empty only stores status and payload and returns.

  The settling call dispatches what is registered: \<^verbatim>\<open>SetValue\<close> on a stage whose success
  slot holds a \<^verbatim>\<open>Resolver\<close> around \<open>f\<close> is exactly one run of \<open>f\<close> on the payload of the
  call, in the store in which the read has put the status back to pending; the same
  for \<^verbatim>\<open>SetException\<close> and a \<^verbatim>\<open>Rejecter\<close> around \<open>g\<close>.

  The registering call dispatches on a settled stage of the matching outcome:
  \<^verbatim>\<open>SetDone\<close> and \<^verbatim>\<open>SetFunc\<close> with a \<^verbatim>\<open>Resolver\<close> around \<open>f\<close> on a fulfilled stage are
  exactly one run of \<open>f\<close> on the stored bundle, \<^verbatim>\<open>SetFail\<close> and \<^verbatim>\<open>SetFunc\<close> with a
  \<^verbatim>\<open>Rejecter\<close> around \<open>g\<close> on a rejected stage exactly one run of \<open>g\<close> on the stored error,
  again in the store in which the status is back to pending.
\<close>

theorem dispatch_in_second_call:
  "(s_st (states h a) \<noteq> fulfilled \<longrightarrow>
      State_SetDone n a dn h = Inr (upd a (\<lambda>s. s\<lparr>s_done := Some dn\<rparr>) h)) \<and>
   (s_st (states h a) \<noteq> rejected \<longrightarrow>
      State_SetFail n a fl h = Inr (upd a (\<lambda>s. s\<lparr>s_fail := Some fl\<rparr>) h)) \<and>
   (s_st (states h a) = pending \<longrightarrow>
      State_SetFunc n a dn fl h = Inr (upd a (\<lambda>s. s\<lparr>s_done := Some dn, s_fail := Some fl\<rparr>) h)) \<and>
   (s_done (states h a) = None \<longrightarrow>
      State_SetValue (Suc n) a v h = Inr (upd a (\<lambda>s. s\<lparr>s_st := fulfilled, s_value := v\<rparr>) h)) \<and>
   (s_fail (states h a) = None \<longrightarrow>
      State_SetException (Suc n) a e h = Inr (upd a (\<lambda>s. s\<lparr>s_st := rejected, s_e := e\<rparr>) h)) \<and>
   (s_done (states h a) = Some dn \<and> objs h dn = Some (Resolver f) \<longrightarrow>
      State_SetValue (Suc n) a v h =
        done_call n f v (upd a (\<lambda>s. s\<lparr>s_st := pending, s_value := map moved_from v\<rparr>) h)) \<and>
   (s_fail (states h a) = Some fl \<and> objs h fl = Some (Rejecter g) \<longrightarrow>
      State_SetException (Suc n) a e h =
        fail_call n g e (upd a (\<lambda>s. s\<lparr>s_st := pending, s_e := None\<rparr>) h)) \<and>
   (s_st (states h a) = fulfilled \<and> objs h dn = Some (Resolver f) \<longrightarrow>
      State_SetDone n a dn h =
        done_call n f (s_value (states h a))
          (upd a (\<lambda>s. s\<lparr>s_st := pending, s_done := Some dn,
                        s_value := map moved_from (s_value s)\<rparr>) h)) \<and>
   (s_st (states h a) = rejected \<and> objs h fl = Some (Rejecter g) \<longrightarrow>
      State_SetFail n a fl h =
        fail_call n g (s_e (states h a))
          (upd a (\<lambda>s. s\<lparr>s_st := pending, s_fail := Some fl, s_e := None\<rparr>) h)) \<and>
   (s_st (states h a) = fulfilled \<and> objs h dn = Some (Resolver f) \<longrightarrow>
      State_SetFunc n a dn fl h =
        done_call n f (s_value (states h a))
          (upd a (\<lambda>s. s\<lparr>s_st := pending, s_done := Some dn, s_fail := Some fl,
                        s_value := map moved_from (s_value s)\<rparr>) h)) \<and>
   (s_st (states h a) = rejected \<and> objs h fl = Some (Rejecter g) \<longrightarrow>
      State_SetFunc n a dn fl h =
        fail_call n g (s_e (states h a))
          (upd a (\<lambda>s. s\<lparr>s_st := pending, s_done := Some dn, s_fail := Some fl,
                        s_e := None\<rparr>) h))"
  by (simp add: api_defs store_defs State_update_order)

theorem dispatch_in_second_call_witness:
  "(s_st (states two_runnables 0) = pending \<and> s_done (states two_runnables 0) = None \<and>
    s_fail (states two_runnables 0) = None) \<and>
   (s_done (states registered_runnables 0) = Some 0 \<and>
    objs registered_runnables 0 = Some (Resolver (Finally_done 7 returns)) \<and>
    s_fail (states registered_runnables 0) = Some (Suc 0) \<and>
    objs registered_runnables (Suc 0) = Some (Rejecter (Finally_fail 7 returns))) \<and>
   (s_st (states fulfilled_runnables 0) = fulfilled \<and>
    objs fulfilled_runnables 0 = Some (Resolver (Finally_done 7 returns))) \<and>
   (s_st (states rejected_runnables 0) = rejected \<and>
    objs rejected_runnables (Suc 0) = Some (Rejecter (Finally_fail 7 returns))) \<and>
   trace (projr (State_SetDone 0 0 0 two_runnables)) = [] \<and>
   trace (projr (State_SetFail 0 0 (Suc 0) two_runnables)) = [] \<and>
   trace (projr (State_SetFunc 0 0 0 (Suc 0) two_runnables)) = [] \<and>
   trace (projr (State_SetValue (Suc 0) 0 [IntV 5] two_runnables)) = [] \<and>
   trace (projr (State_SetException (Suc 0) 0 (Some ''E'') two_runnables)) = [] \<and>
   trace (projr (State_SetValue (Suc 0) 0 [IntV 5] registered_runnables)) = [CallE 7 None] \<and>
   trace (projr (State_SetException (Suc 0) 0 (Some ''E'') registered_runnables))
     = [CallE 7 (Some ''E'')] \<and>
   trace (projr (State_SetDone 0 0 0 fulfilled_runnables)) = [CallE 7 None] \<and>
   trace (projr (State_SetFail 0 0 (Suc 0) rejected_runnables)) = [CallE 7 (Some ''E'')] \<and>
   trace (projr (State_SetFunc 0 0 0 (Suc 0) fulfilled_runnables)) = [CallE 7 None] \<and>
   trace (projr (State_SetFunc 0 0 0 (Suc 0) rejected_runnables)) = [CallE 7 (Some ''E'')]"
proof -
  let ?f = "Finally_done 7 returns" and ?g = "Finally_fail 7 returns"
  have t: "s_st (states two_runnables 0) = pending \<and> s_done (states two_runnables 0) = None \<and>
      s_fail (states two_runnables 0) = None"
    and t': "trace two_runnables = []"
    by (simp_all add: two_runnables_simps)
  have r: "s_done (states registered_runnables 0) = Some 0 \<and>
      objs registered_runnables 0 = Some (Resolver ?f) \<and>
      s_fail (states registered_runnables 0) = Some (Suc 0) \<and>
      objs registered_runnables (Suc 0) = Some (Rejecter ?g)"
    and r': "trace registered_runnables = []"
    by (simp_all add: registered_runnables_def two_runnables_def api_defs store_defs)
  have u: "s_st (states fulfilled_runnables 0) = fulfilled \<and>
      objs fulfilled_runnables 0 = Some (Resolver ?f)"
    and u': "trace fulfilled_runnables = []"
    by (simp_all add: fulfilled_runnables_def two_runnables_def api_defs store_defs)
  have x: "s_st (states rejected_runnables 0) = rejected \<and>
      objs rejected_runnables (Suc 0) = Some (Rejecter ?g)"
    and x': "trace rejected_runnables = []" "s_e (states rejected_runnables 0) = Some ''E''"
    by (simp_all add: rejected_runnables_def two_runnables_def api_defs store_defs)
  note T = dispatch_in_second_call [where h = two_runnables and a = 0 and n = 0 and dn = 0
      and fl = "Suc 0" and v = "[IntV 5]" and e = "Some ''E''" and f = ?f and g = ?g]
  note R = dispatch_in_second_call [where h = registered_runnables and a = 0 and n = 0 and dn = 0
      and fl = "Suc 0" and v = "[IntV 5]" and e = "Some ''E''" and f = ?f and g = ?g]
  note U = dispatch_in_second_call [where h = fulfilled_runnables and a = 0 and n = 0 and dn = 0
      and fl = "Suc 0" and v = "[IntV 5]" and e = "Some ''E''" and f = ?f and g = ?g]
  note X = dispatch_in_second_call [where h = rejected_runnables and a = 0 and n = 0 and dn = 0
      and fl = "Suc 0" and v = "[IntV 5]" and e = "Some ''E''" and f = ?f and g = ?g]
  have "State_SetDone 0 0 0 two_runnables = Inr (upd 0 (\<lambda>s. s\<lparr>s_done := Some 0\<rparr>) two_runnables)"
    using T t by simp
  then have c1: "trace (projr (State_SetDone 0 0 0 two_runnables)) = []"
    using t' by (simp add: upd_def)
  have "State_SetFail 0 0 (Suc 0) two_runnables
      = Inr (upd 0 (\<lambda>s. s\<lparr>s_fail := Some (Suc 0)\<rparr>) two_runnables)"
    using T t by simp
  then have c2: "trace (projr (State_SetFail 0 0 (Suc 0) two_runnables)) = []"
    using t' by (simp add: upd_def)
  have "State_SetFunc 0 0 0 (Suc 0) two_runnables
      = Inr (upd 0 (\<lambda>s. s\<lparr>s_done := Some 0, s_fail := Some (Suc 0)\<rparr>) two_runnables)"
    using T t by simp
  then have c3: "trace (projr (State_SetFunc 0 0 0 (Suc 0) two_runnables)) = []"
    using t' by (simp add: upd_def)
  have "State_SetValue (Suc 0) 0 [IntV 5] two_runnables
      = Inr (upd 0 (\<lambda>s. s\<lparr>s_st := fulfilled, s_value := [IntV 5]\<rparr>) two_runnables)"
    using T t by simp
  then have c4: "trace (projr (State_SetValue (Suc 0) 0 [IntV 5] two_runnables)) = []"
    using t' by (simp add: upd_def)
  have "State_SetException (Suc 0) 0 (Some ''E'') two_runnables
      = Inr (upd 0 (\<lambda>s. s\<lparr>s_st := rejected, s_e := Some ''E''\<rparr>) two_runnables)"
    using T t by simp
  then have c5: "trace (projr (State_SetException (Suc 0) 0 (Some ''E'') two_runnables)) = []"
    using t' by (simp add: upd_def)
  have "State_SetValue (Suc 0) 0 [IntV 5] registered_runnables
      = done_call 0 ?f [IntV 5]
          (upd 0 (\<lambda>s. s\<lparr>s_st := pending, s_value := map moved_from [IntV 5]\<rparr>) registered_runnables)"
    using R r by simp
  then have c6: "trace (projr (State_SetValue (Suc 0) 0 [IntV 5] registered_runnables))
      = [CallE 7 None]"
    using r' by (simp add: upd_def log_def returns_def)
  have "State_SetException (Suc 0) 0 (Some ''E'') registered_runnables
      = fail_call 0 ?g (Some ''E'')
          (upd 0 (\<lambda>s. s\<lparr>s_st := pending, s_e := None\<rparr>) registered_runnables)"
    using R r by simp
  then have c7: "trace (projr (State_SetException (Suc 0) 0 (Some ''E'') registered_runnables))
      = [CallE 7 (Some ''E'')]"
    using r' by (simp add: upd_def log_def returns_def)
  have "State_SetDone 0 0 0 fulfilled_runnables
      = done_call 0 ?f (s_value (states fulfilled_runnables 0))
          (upd 0 (\<lambda>s. s\<lparr>s_st := pending, s_done := Some 0,
                        s_value := map moved_from (s_value s)\<rparr>) fulfilled_runnables)"
    using U u by simp
  then have c8: "trace (projr (State_SetDone 0 0 0 fulfilled_runnables)) = [CallE 7 None]"
    using u' by (simp add: upd_def log_def returns_def)
  have "State_SetFail 0 0 (Suc 0) rejected_runnables
      = fail_call 0 ?g (s_e (states rejected_runnables 0))
          (upd 0 (\<lambda>s. s\<lparr>s_st := pending, s_fail := Some (Suc 0), s_e := None\<rparr>) rejected_runnables)"
    using X x by simp
  then have c9: "trace (projr (State_SetFail 0 0 (Suc 0) rejected_runnables))
      = [CallE 7 (Some ''E'')]"
    using x' by (simp add: upd_def log_def returns_def)
  have "State_SetFunc 0 0 0 (Suc 0) fulfilled_runnables
      = done_call 0 ?f (s_value (states fulfilled_runnables 0))
          (upd 0 (\<lambda>s. s\<lparr>s_st := pending, s_done := Some 0, s_fail := Some (Suc 0),
                        s_value := map moved_from (s_value s)\<rparr>) fulfilled_runnables)"
    using U u by simp
  then have c10: "trace (projr (State_SetFunc 0 0 0 (Suc 0) fulfilled_runnables)) = [CallE 7 None]"
    using u' by (simp add: upd_def log_def returns_def)
  have "State_SetFunc 0 0 0 (Suc 0) rejected_runnables
      = fail_call 0 ?g (s_e (states rejected_runnables 0))
          (upd 0 (\<lambda>s. s\<lparr>s_st := pending, s_done := Some 0, s_fail := Some (Suc 0),
                        s_e := None\<rparr>) rejected_runnables)"
    using X x by simp
  then have c11: "trace (projr (State_SetFunc 0 0 0 (Suc 0) rejected_runnables))
      = [CallE 7 (Some ''E'')]"
    using x' by (simp add: upd_def log_def returns_def)
  from t r u x c1 c2 c3 c4 c5 c6 c7 c8 c9 c10 c11 show ?thesis by blast
qed

text \<open>
  C7, as the specification states it, fails: after \<^verbatim>\<open>Deffered<int> d; d.SetValue(100);\<close>
  the stage is fulfilled, and \<^verbatim>\<open>d.SetException(late)\<close> returns normally and leaves it
  rejected with the new error.
\<close>

theorem double_settle_counterexample:
  "s_st (states deffered_100 0) = fulfilled \<and>
   \<not> isl (Deffered_SetException 1 0 (Some ''late'') deffered_100) \<and>
   s_st (states (projr (Deffered_SetException 1 0 (Some ''late'') deffered_100)) 0) = rejected \<and>
   s_e (states (projr (Deffered_SetException 1 0 (Some ''late'') deffered_100)) 0) = Some ''late''"
  by (simp add: deffered_100_def api_defs store_defs)

text \<open>
  C7, amended. Settling does not look at the status: the result of \<^verbatim>\<open>SetValue\<close> and of
  \<^verbatim>\<open>SetException\<close> is the same whatever status the stage had. On a stage with no
  continuation of the matching side, whether pending or already settled, the call
  returns normally and overwrites status and payload; no failure is signalled.
\<close>

theorem settle_ignores_status:
  "State_SetValue n a v (upd a (\<lambda>s. s\<lparr>s_st := x\<rparr>) h) = State_SetValue n a v h \<and>
   State_SetException n a e (upd a (\<lambda>s. s\<lparr>s_st := x\<rparr>) h) = State_SetException n a e h \<and>
   (s_done (states h a) = None \<longrightarrow>
      State_SetValue (Suc n) a v h = Inr (upd a (\<lambda>s. s\<lparr>s_st := fulfilled, s_value := v\<rparr>) h)) \<and>
   (s_fail (states h a) = None \<longrightarrow>
      State_SetException (Suc n) a e h = Inr (upd a (\<lambda>s. s\<lparr>s_st := rejected, s_e := e\<rparr>) h))"
  by (cases n) (simp_all add: store_defs)

theorem settle_ignores_status_witness:
  "s_st (states deffered_100 0) = fulfilled \<and>
   s_done (states deffered_100 0) = None \<and> s_fail (states deffered_100 0) = None \<and>
   State_SetValue 1 0 [IntV 7] deffered_100 =
     Inr (upd 0 (\<lambda>s. s\<lparr>s_st := fulfilled, s_value := [IntV 7]\<rparr>) deffered_100) \<and>
   State_SetException 1 0 (Some ''late'') deffered_100 =
     Inr (upd 0 (\<lambda>s. s\<lparr>s_st := rejected, s_e := Some ''late''\<rparr>) deffered_100)"
proof -
  have a: "s_done (states deffered_100 0) = None" and b: "s_fail (states deffered_100 0) = None"
    and c: "s_st (states deffered_100 0) = fulfilled"
    by (simp_all add: deffered_100_def api_defs store_defs)
  from settle_ignores_status [of 0 0 "[IntV 7]" pending deffered_100 "Some ''late''"]
  show ?thesis using a b c by simp
qed

text \<open>
  C8, as the specification states it, fails: after \<^verbatim>\<open>Deffered<int> d; d.SetValue(100);\<close>
  the call \<^verbatim>\<open>d.Reset()\<close> leaves the bundle \<open>(100)\<close> stored, and a read after the reset
  returns it.
\<close>

theorem Reset_counterexample:
  "s_value (states deffered_100 0) = [IntV 100] \<and>
   s_value (states (Deffered_Reset 0 deffered_100) 0) = [IntV 100] \<and>
   fst (Promise_GetValue (Deffered_GetPromise 0) (Deffered_Reset 0 deffered_100)) = [IntV 100]"
  by (simp add: deffered_100_def api_defs store_defs)

text \<open>
  C8, amended. After \<^verbatim>\<open>Reset\<close> the status is pending, both slots are empty, the
  continuation objects the slots pointed to are deleted, and the stored error is null;
  the stored value bundle is what it was. The destructor of the state is a call of
  \<^verbatim>\<open>Reset\<close>.
\<close>

theorem Reset_effect:
  "s_st (states (State_Reset a h) a) = pending \<and>
   s_done (states (State_Reset a h) a) = None \<and>
   s_fail (states (State_Reset a h) a) = None \<and>
   s_e (states (State_Reset a h) a) = None \<and>
   s_value (states (State_Reset a h) a) = s_value (states h a) \<and>
   (s_done (states h a) = Some r \<or> s_fail (states h a) = Some r \<longrightarrow>
      objs (State_Reset a h) r = None) \<and>
   State_dtor a h = State_Reset a h"
  by (simp add: Reset_fields State_dtor_def)

theorem Reset_effect_witness:
  "s_done (states (projr (Promise_Finally 0 7 returns 1 three_stages)) 1) = Some 0 \<and>
   objs (projr (Promise_Finally 0 7 returns 1 three_stages)) 0 =
     Some (Resolver (Finally_done 7 returns)) \<and>
   objs (State_Reset 1 (projr (Promise_Finally 0 7 returns 1 three_stages))) 0 = None \<and>
   s_done (states (State_Reset 1 (projr (Promise_Finally 0 7 returns 1 three_stages))) 1) = None"
proof -
  have a: "s_done (states (projr (Promise_Finally 0 7 returns 1 three_stages)) 1) = Some 0"
    and b: "objs (projr (Promise_Finally 0 7 returns 1 three_stages)) 0 =
              Some (Resolver (Finally_done 7 returns))"
    by (simp_all add: Promise_Finally_def State_SetFunc_def new_def three_stages_simps
          State_init_def)
  from Reset_effect [of 1 "projr (Promise_Finally 0 7 returns 1 three_stages)" 0]
  show ?thesis using a b by simp
qed

text \<open>
  C9. The code leaks on replacement. After \<^verbatim>\<open>p.Finally(h1); p.Finally(h2);\<close> on a
  pending promise the slots hold the second pair of objects (2 and 3), and the first
  pair (0 and 1) is still allocated although no slot of any state points to it: nothing
  deleted the first pair, and nothing can any more.
\<close>

theorem replacement_leaks:
  "\<not> isl finally_twice \<and>
   s_done (states (projr finally_twice) 0) = Some 2 \<and>
   s_fail (states (projr finally_twice) 0) = Some 3 \<and>
   objs (projr finally_twice) 0 = Some (Resolver (Finally_done 1 returns)) \<and>
   objs (projr finally_twice) 1 = Some (Rejecter (Finally_fail 1 returns)) \<and>
   unref (projr finally_twice) 0 \<and> unref (projr finally_twice) 1"
  by (simp add: finally_twice_def unref_def api_defs store_defs)

text \<open>
  C10. No program over the public interface reaches one of the two \<^verbatim>\<open>assert(0)\<close>:
  whatever the sequence of calls, started in the empty store, and whatever the fuel,
  the run does not end in \<open>Assert0\<close> (nor in a call through a deleted continuation).
  The invariant behind it is \<open>wf\<close>: the operators put a \<^verbatim>\<open>Resolver\<close> in the success
  slot and a \<^verbatim>\<open>Rejecter\<close> in the failure slot, and a state sends values to the first
  and errors to the second only.
\<close>

theorem traps_unreachable:
  "run n cs heap_init \<noteq> Inl Assert0 \<and> run n cs heap_init \<noteq> Inl UseAfterDelete"
  using safe_run [OF wf_heap_init, of n cs]
  by (cases "run n cs heap_init") (simp_all add: safe_def)

end
